theory Spec2Isabelle
  imports Main "HOL-Library.Word"
begin

unbundle bit_operations_syntax

section \<open>Data model of \<open>EncryptedFileMapping\<close>\<close>

text \<open>
  \<open>size_t\<close>, \<open>uintptr_t\<close> and \<open>unsigned long long\<close> are 64-bit unsigned integers whose
  arithmetic wraps around. An address (\<open>void*\<close>) is the 64-bit number that
  \<open>reinterpret_cast<size_t>\<close> gives.
\<close>

type_synonym size_t = "64 word"

text \<open>
  \<open>enum PageState\<close> is a bit mask stored in an \<open>int\<close>; the helpers \<open>clear\<close>, \<open>is_not\<close>,
  \<open>is\<close> and \<open>set\<close> take the flags to test or change as an \<open>int\<close>.
\<close>

type_synonym PageState = "32 word"

definition Clean :: PageState where "Clean = 0"
definition Touched :: PageState where "Touched = 1"
definition UpToDate :: PageState where "UpToDate = 2"
definition StaleIV :: PageState where "StaleIV = 4"
definition Writable :: PageState where "Writable = 8"
definition Dirty :: PageState where "Dirty = 16"

definition clear :: "PageState \<Rightarrow> PageState \<Rightarrow> PageState" where
  "clear ps p = ps AND NOT p"

definition is_not :: "PageState \<Rightarrow> PageState \<Rightarrow> bool" where
  "is_not ps p = (ps AND p = 0)"

definition is_ps :: "PageState \<Rightarrow> PageState \<Rightarrow> bool" where
  "is_ps ps p = (ps AND p \<noteq> 0)"

definition set_ps :: "PageState \<Rightarrow> PageState \<Rightarrow> PageState" where
  "set_ps ps p = ps OR p"

definition page_to_chunk_shift :: nat where
  "page_to_chunk_shift = 10"

definition page_to_chunk_factor :: size_t where
  "page_to_chunk_factor = push_bit page_to_chunk_shift 1"

definition c_min_encrypted_file_size :: size_t where
  "c_min_encrypted_file_size = 8192"

text \<open>
  The members of the class that the address translation reads. \<open>m_page_state\<close> is the
  \<open>std::vector<PageState>\<close>; its \<open>size()\<close> is the length of the list, a number that
  fits \<open>size_t\<close>, so comparisons against it are made on the unsigned values.
\<close>

record EncryptedFileMapping =
  m_page_shift :: size_t
  m_addr :: size_t
  m_first_page :: size_t
  m_num_decrypted :: size_t
  m_page_state :: "PageState list"
  m_chunk_dont_scan :: "bool list"

datatype error = Fatal | DecryptionFailed

text \<open>
  Modelled from the spec: the assertion macros \<open>REALM_ASSERT_3\<close> and \<open>REALM_ASSERT_EX\<close>
  come from a header that is not among the sources. The specification classifies a failed
  assertion as a fatal programming error: the call does not return a value.
\<close>

definition REALM_ASSERT :: "bool \<Rightarrow> (error + 'a) \<Rightarrow> error + 'a" where
  "REALM_ASSERT c k = (if c then k else Inl Fatal)"

section \<open>Address translation\<close>

text \<open>
  A shift by \<open>m_page_shift\<close> positions. For a count of 64 or more the C++ expression
  has no defined value; \<open>drop_bit\<close> and \<open>push_bit\<close> give 0 there.
\<close>

definition get_offset_of_address ::
  "'a EncryptedFileMapping_scheme \<Rightarrow> size_t \<Rightarrow> error + size_t" where
  "get_offset_of_address m addr =
     REALM_ASSERT (addr \<ge> m_addr m)
       (Inr ((addr - m_addr m) AND (push_bit (unat (m_page_shift m)) 1 - 1)))"

definition get_local_index_of_address ::
  "'a EncryptedFileMapping_scheme \<Rightarrow> size_t \<Rightarrow> size_t \<Rightarrow> error + size_t" where
  "get_local_index_of_address m addr offset =
     REALM_ASSERT (addr \<ge> m_addr m)
       (let local_ndx = drop_bit (unat (m_page_shift m)) (addr - m_addr m + offset)
        in REALM_ASSERT (unat local_ndx < length (m_page_state m)) (Inr local_ndx))"

definition contains_page :: "'a EncryptedFileMapping_scheme \<Rightarrow> size_t \<Rightarrow> bool" where
  "contains_page m page_in_file =
     (page_in_file \<ge> m_first_page m \<and>
      unat (page_in_file - m_first_page m) < length (m_page_state m))"

text \<open>
  The same expression with its evaluation order made explicit: \<open>&&\<close> evaluates its
  right operand only when the left one is true, and an unsigned subtraction whose
  mathematical result is negative is reported as \<open>None\<close> instead of wrapping.
\<close>

definition sub_no_wrap :: "size_t \<Rightarrow> size_t \<Rightarrow> size_t option" where
  "sub_no_wrap a b = (if unat a < unat b then None else Some (a - b))"

definition contains_page_eval :: "'a EncryptedFileMapping_scheme \<Rightarrow> size_t \<Rightarrow> bool option" where
  "contains_page_eval m page_in_file =
     (if page_in_file \<ge> m_first_page m
      then (case sub_no_wrap page_in_file (m_first_page m) of
              None \<Rightarrow> None
            | Some d \<Rightarrow> Some (unat d < length (m_page_state m)))
      else Some False)"

definition get_end_index :: "'a EncryptedFileMapping_scheme \<Rightarrow> size_t" where
  "get_end_index m = m_first_page m + of_nat (length (m_page_state m))"

definition get_start_index :: "'a EncryptedFileMapping_scheme \<Rightarrow> size_t" where
  "get_start_index m = m_first_page m"

definition collect_decryption_count :: "'a EncryptedFileMapping_scheme \<Rightarrow> size_t" where
  "collect_decryption_count m = m_num_decrypted m"


section \<open>The operations on the page table\<close>

text \<open>
  The bodies of the barrier, flush, marking, reclaiming and resizing operations are not
  among the sources: the header declares them. They are modelled from the
  specification, over the members the header declares and over a model of the
  collaborators the specification describes.
\<close>

type_synonym bytes = "8 word list"
type_synonym iv = nat

text \<open>
  Modelled from the spec: \<open>SharedFileInfo\<close> is declared in the header and defined
  elsewhere. The specification describes the collaborators behind it: a cryptor with
  \<open>encrypt(plaintext) -> (ciphertext, iv)\<close> and
  \<open>decrypt(ciphertext, iv) -> plaintext | IntegrityError\<close>, and the shared image of the
  file, which holds the ciphertext and the IV of each page (by global page index) and
  which other processes change as well.
\<close>

record SharedFileInfo =
  encrypt :: "bytes \<Rightarrow> bytes \<times> iv"
  decrypt :: "bytes \<Rightarrow> iv \<Rightarrow> bytes option"
  image :: "nat \<Rightarrow> bytes \<times> iv"

text \<open>
  Modelled from the spec: \<open>read_current_iv(page_index)\<close> of the cryptor, the IV that the
  shared image holds for a page.
\<close>

definition read_current_iv :: "SharedFileInfo \<Rightarrow> nat \<Rightarrow> iv" where
  "read_current_iv F page_ndx = snd (image F page_ndx)"

text \<open>
  Modelled from the spec: the mapping together with what its operations read and write
  besides its own members: the shared file \<open>m_file\<close>, the decrypted memory of each page
  of the window (by local page index; a page whose memory has been released, or that
  has never been decrypted, holds no bytes) and the IV recorded for the plaintext that
  is in memory.
\<close>

record Window = EncryptedFileMapping +
  m_file :: SharedFileInfo
  memory :: "nat \<Rightarrow> bytes"
  recorded_iv :: "nat \<Rightarrow> iv option"

text \<open>
  The callback \<open>Header_to_size\<close> takes a pointer into decrypted memory; here it takes the
  bytes that the pointer gives access to.
\<close>

type_synonym Header_to_size = "bytes \<Rightarrow> size_t"

text \<open>
  Modelled from the spec: the size of a page (``page size is a power of two; shift and
  mask are derived once at construction''), the global index of a page of the window
  (\<open>m_first_page\<close> is the global index of local index 0), the chunk of a page and the
  pages of a chunk in a table of \<open>n\<close> pages (``one boolean per 1024 pages'').
\<close>

definition page_size :: "'a EncryptedFileMapping_scheme \<Rightarrow> size_t" where
  "page_size m = push_bit (unat (m_page_shift m)) 1"

definition page_in_file :: "'a EncryptedFileMapping_scheme \<Rightarrow> nat \<Rightarrow> nat" where
  "page_in_file m local_page_ndx = unat (m_first_page m) + local_page_ndx"

definition chunk_of :: "nat \<Rightarrow> nat" where
  "chunk_of local_page_ndx = drop_bit page_to_chunk_shift local_page_ndx"

definition chunk_pages :: "nat \<Rightarrow> nat \<Rightarrow> nat list" where
  "chunk_pages n c =
     [push_bit page_to_chunk_shift c ..< min n (push_bit page_to_chunk_shift (Suc c))]"

text \<open>
  Modelled from the spec: the two updates of the table that the operations are made
  of, a change of the state of one page and the clearing of the skip bit of the chunk
  of a page (``it must be cleared whenever any page within the chunk changes to a state
  requiring action'').
\<close>

definition update_page_state ::
  "nat \<Rightarrow> (PageState \<Rightarrow> PageState) \<Rightarrow> Window \<Rightarrow> Window" where
  "update_page_state i f m = m\<lparr>m_page_state := (m_page_state m)[i := f (m_page_state m ! i)]\<rparr>"

definition clear_dont_scan :: "nat \<Rightarrow> Window \<Rightarrow> Window" where
  "clear_dont_scan i m = m\<lparr>m_chunk_dont_scan := (m_chunk_dont_scan m)[chunk_of i := False]\<rparr>"

text \<open>
  Modelled from the spec: setting the skip bit of each chunk whose pages all satisfy
  \<open>quiet\<close> (``a chunk's bit may only be true if every page in that chunk is in a state
  requiring no action''). A bit that is set stays set.
\<close>

definition set_dont_scan :: "(nat \<Rightarrow> bool) \<Rightarrow> (PageState \<Rightarrow> bool) \<Rightarrow> Window \<Rightarrow> Window" where
  "set_dont_scan scanned quiet m =
     m\<lparr>m_chunk_dont_scan :=
         map (\<lambda>c. m_chunk_dont_scan m ! c \<or>
                  (scanned c \<and>
                   list_all (\<lambda>i. quiet (m_page_state m ! i))
                     (chunk_pages (length (m_page_state m)) c)))
           [0 ..< length (m_chunk_dont_scan m)]\<rparr>"

subsection \<open>read_barrier\<close>

text \<open>
  Modelled from the spec: step 2 of \<open>read_barrier\<close>. ``If the page is StaleIV, consult
  the on-disk IV; if the on-disk IV differs from the one recorded for the in-memory
  plaintext, clear UpToDate and clear StaleIV; if unchanged, simply clear StaleIV.''
\<close>

definition check_stale_iv :: "nat \<Rightarrow> Window \<Rightarrow> Window" where
  "check_stale_iv i m =
     (if is_ps (m_page_state m ! i) StaleIV
      then (if recorded_iv m i \<noteq> Some (read_current_iv (m_file m) (page_in_file m i))
            then update_page_state i (\<lambda>ps. clear (clear ps UpToDate) StaleIV) m
            else update_page_state i (\<lambda>ps. clear ps StaleIV) m)
      else m)"

text \<open>
  Modelled from the spec: \<open>refresh_page\<close> (step 3). ``Decrypt the ciphertext for that
  page into the process's memory, verify its integrity tag, and set UpToDate; fails
  with a decryption error if the tag check fails''; the decryption counter is
  incremented once per page decrypted. Whether a region of the file is empty is the
  cryptor's business: its \<open>decrypt\<close> reports an integrity error or not.
\<close>

definition refresh_page :: "nat \<Rightarrow> Window \<Rightarrow> error + Window" where
  "refresh_page i m =
     (case image (m_file m) (page_in_file m i) of (c, v) \<Rightarrow>
        (case decrypt (m_file m) c v of
           None \<Rightarrow> Inl DecryptionFailed
         | Some p \<Rightarrow>
             Inr (update_page_state i (\<lambda>ps. set_ps ps UpToDate)
                   (m\<lparr>m_num_decrypted := m_num_decrypted m + 1,
                      memory := (memory m)(i := p),
                      recorded_iv := (recorded_iv m)(i := Some v)\<rparr>))))"

text \<open>
  Modelled from the spec: steps 1 to 4 of \<open>read_barrier\<close> for the page with local index
  \<open>i\<close>. Step 1 fails fatally when the index is outside the table. Step 4 requires the
  page to be UpToDate and sets Writable and Touched. A page whose state changes may
  need examination by a later scan, so the skip bit of its chunk is cleared.
  \<open>barrier_pages\<close> does this for the pages of a list, in order, up to the first failure.
\<close>

definition barrier_page :: "bool \<Rightarrow> nat \<Rightarrow> Window \<Rightarrow> error + Window" where
  "barrier_page to_modify i m =
     (if length (m_page_state m) \<le> i then Inl Fatal
      else
        let m2 = check_stale_iv i m in
        (case (if is_not (m_page_state m2 ! i) UpToDate then refresh_page i m2 else Inr m2) of
           Inl e \<Rightarrow> Inl e
         | Inr m3 \<Rightarrow>
             if to_modify
             then REALM_ASSERT (is_ps (m_page_state m3 ! i) UpToDate)
                    (Inr (clear_dont_scan i
                       (update_page_state i (\<lambda>ps. set_ps (set_ps ps Writable) Touched) m3)))
             else Inr (clear_dont_scan i m3)))"

fun barrier_pages :: "bool \<Rightarrow> nat list \<Rightarrow> Window \<Rightarrow> error + Window" where
  "barrier_pages to_modify [] m = Inr m"
| "barrier_pages to_modify (i # pages) m =
     (case barrier_page to_modify i m of
        Inl e \<Rightarrow> Inl e
      | Inr m' \<Rightarrow> barrier_pages to_modify pages m')"

text \<open>
  Modelled from the spec: the local index of the last page that the byte range of
  \<open>sz\<close> bytes at \<open>addr\<close> overlaps, in the arithmetic of
  \<open>get_local_index_of_address\<close>; the bounds check is made page by page in step 1.
\<close>

definition last_page_of :: "'a EncryptedFileMapping_scheme \<Rightarrow> size_t \<Rightarrow> size_t \<Rightarrow> nat" where
  "last_page_of m addr sz =
     unat (drop_bit (unat (m_page_shift m)) (addr - m_addr m + (sz - 1)))"

text \<open>
  Modelled from the spec: the argument of the header-size callback, the decrypted bytes
  from \<open>addr\<close> to the end of its page.
\<close>

definition bytes_at :: "Window \<Rightarrow> size_t \<Rightarrow> nat \<Rightarrow> bytes" where
  "bytes_at m addr i =
     (case get_offset_of_address m addr of
        Inl e \<Rightarrow> []
      | Inr off \<Rightarrow> drop (unat off) (memory m i))"

text \<open>
  Modelled from the spec: step 5, dynamic extension. After the first page is current
  the callback, when supplied, gives the size of the record at \<open>addr\<close>, and the range
  is extended to cover it. The pages after the first one are those up to the last
  page of the extended range.
\<close>

definition extended_size :: "Window \<Rightarrow> size_t \<Rightarrow> size_t \<Rightarrow> Header_to_size option \<Rightarrow> nat \<Rightarrow> size_t" where
  "extended_size m1 addr sz header_to_size first =
     (case header_to_size of
        None \<Rightarrow> sz
      | Some h \<Rightarrow> max sz (h (bytes_at m1 addr first)))"

definition rest_pages :: "Window \<Rightarrow> size_t \<Rightarrow> size_t \<Rightarrow> Header_to_size option \<Rightarrow> nat \<Rightarrow> nat list" where
  "rest_pages m1 addr sz header_to_size first =
     [Suc first ..< Suc (last_page_of m1 addr (extended_size m1 addr sz header_to_size first))]"

text \<open>
  Modelled from the spec: \<open>read_barrier(addr, size, header_to_size, to_modify)\<close>. An
  empty range overlaps no page.
\<close>

definition read_barrier ::
  "Window \<Rightarrow> size_t \<Rightarrow> size_t \<Rightarrow> Header_to_size option \<Rightarrow> bool \<Rightarrow> error + Window" where
  "read_barrier m addr sz header_to_size to_modify =
     (if sz = 0 then Inr m
      else
        (case get_local_index_of_address m addr 0 of
           Inl e \<Rightarrow> Inl e
         | Inr first \<Rightarrow>
             (case barrier_page to_modify (unat first) m of
                Inl e \<Rightarrow> Inl e
              | Inr m1 \<Rightarrow>
                  barrier_pages to_modify
                    (rest_pages m1 addr sz header_to_size (unat first)) m1)))"

text \<open>
  Modelled from the spec: the pages that a \<open>read_barrier\<close> call covers, which are the
  first page and, once it is current, the pages of the possibly extended range.
\<close>

definition covered_pages ::
  "Window \<Rightarrow> size_t \<Rightarrow> size_t \<Rightarrow> Header_to_size option \<Rightarrow> bool \<Rightarrow> nat list" where
  "covered_pages m addr sz header_to_size to_modify =
     (if sz = 0 then []
      else
        (case get_local_index_of_address m addr 0 of
           Inl e \<Rightarrow> []
         | Inr first \<Rightarrow>
             (case barrier_page to_modify (unat first) m of
                Inl e \<Rightarrow> [unat first]
              | Inr m1 \<Rightarrow>
                  unat first # rest_pages m1 addr sz header_to_size (unat first))))"


subsection \<open>write_barrier\<close>

text \<open>
  Modelled from the spec: \<open>write_barrier(addr, size)\<close>. ``For the overlapping pages,
  requires each was previously marked Writable; sets Dirty on each. No encryption
  happens here. Calling this on a page not marked Writable is a programming-error
  fatal condition.'' A page that becomes Dirty needs examination by the next flush, so
  the skip bit of its chunk is cleared.
\<close>

definition mark_dirty :: "nat \<Rightarrow> Window \<Rightarrow> error + Window" where
  "mark_dirty i m =
     (if length (m_page_state m) \<le> i then Inl Fatal
      else REALM_ASSERT (is_ps (m_page_state m ! i) Writable)
             (Inr (clear_dont_scan i (update_page_state i (\<lambda>ps. set_ps ps Dirty) m))))"

fun mark_dirty_pages :: "nat list \<Rightarrow> Window \<Rightarrow> error + Window" where
  "mark_dirty_pages [] m = Inr m"
| "mark_dirty_pages (i # pages) m =
     (case mark_dirty i m of
        Inl e \<Rightarrow> Inl e
      | Inr m' \<Rightarrow> mark_dirty_pages pages m')"

text \<open>
  Modelled from the spec: the pages that the byte range of \<open>sz\<close> bytes at \<open>addr\<close>
  overlaps; the translation of \<open>addr\<close> fails fatally when \<open>addr\<close> is outside the window,
  and an empty range overlaps no page.
\<close>

definition pages_of_range ::
  "'a EncryptedFileMapping_scheme \<Rightarrow> size_t \<Rightarrow> size_t \<Rightarrow> error + nat list" where
  "pages_of_range m addr sz =
     (if sz = 0 then Inr []
      else
        (case get_local_index_of_address m addr 0 of
           Inl e \<Rightarrow> Inl e
         | Inr first \<Rightarrow> Inr [unat first ..< Suc (last_page_of m addr sz)]))"

definition write_barrier :: "Window \<Rightarrow> size_t \<Rightarrow> size_t \<Rightarrow> error + Window" where
  "write_barrier m addr sz =
     (case pages_of_range m addr sz of
        Inl e \<Rightarrow> Inl e
      | Inr pages \<Rightarrow> mark_dirty_pages pages m)"

subsection \<open>flush\<close>

text \<open>
  Modelled from the spec: \<open>flush()\<close>. ``For every Dirty page: encrypt current plaintext,
  compute a fresh IV, write ciphertext+IV into the shared per-file cache, clear Dirty
  and Writable, leave UpToDate set. Scans efficiently using the chunk skip-bitmap,
  setting a chunk's skip bit once every page within it is clean of Dirty/Writable.''
  The pages of a chunk whose skip bit is set are not examined. The function has no
  failing branch: it is \<open>noexcept\<close>.
\<close>

definition flush_page :: "nat \<Rightarrow> Window \<Rightarrow> Window" where
  "flush_page i m =
     (if m_chunk_dont_scan m ! chunk_of i then m
      else if is_not (m_page_state m ! i) Dirty then m
      else
        (case encrypt (m_file m) (memory m i) of (c, v) \<Rightarrow>
           update_page_state i (\<lambda>ps. clear (clear ps Dirty) Writable)
             (m\<lparr>m_file := (m_file m)\<lparr>image := (image (m_file m))(page_in_file m i := (c, v))\<rparr>,
                recorded_iv := (recorded_iv m)(i := Some v)\<rparr>)))"

definition flush :: "Window \<Rightarrow> Window" where
  "flush m =
     set_dont_scan (\<lambda>c. True) (\<lambda>ps. is_not ps (Dirty OR Writable))
       (fold flush_page [0 ..< length (m_page_state m)] m)"

subsection \<open>mark_pages_for_IV_check\<close>

text \<open>
  Modelled from the spec: \<open>mark_pages_for_IV_check()\<close>. ``Sets StaleIV on every page
  currently Touched/UpToDate in this window; does not itself re-decrypt.''
\<close>

definition mark_for_IV_check :: "PageState \<Rightarrow> PageState" where
  "mark_for_IV_check ps =
     (if is_ps ps Touched \<or> is_ps ps UpToDate then set_ps ps StaleIV else ps)"

definition mark_pages_for_IV_check :: "Window \<Rightarrow> Window" where
  "mark_pages_for_IV_check m = m\<lparr>m_page_state := map mark_for_IV_check (m_page_state m)\<rparr>"

subsection \<open>reclaim_untouched\<close>

text \<open>
  Modelled from the spec: the pages that \<open>reclaim_untouched\<close> evicts. ``Each page that
  is Clean or UpToDate with neither Dirty nor Writable, and has not been touched since
  the last reclamation pass.''
\<close>

definition reclaimable :: "PageState \<Rightarrow> bool" where
  "reclaimable ps =
     ((ps = Clean \<or> (is_ps ps UpToDate \<and> is_not ps Dirty \<and> is_not ps Writable)) \<and>
      is_not ps Touched)"

text \<open>
  Modelled from the spec: \<open>reclaim_page\<close>. It ``releases its decrypted memory and resets
  its state''; reclaiming a dirty page is one of the fatal invariant violations.
\<close>

definition reclaim_page :: "nat \<Rightarrow> Window \<Rightarrow> error + Window" where
  "reclaim_page i m =
     REALM_ASSERT (is_not (m_page_state m ! i) Dirty)
       (Inr (update_page_state i (\<lambda>ps. Clean)
              (m\<lparr>memory := (memory m)(i := []),
                 recorded_iv := (recorded_iv m)(i := None)\<rparr>)))"

text \<open>
  Modelled from the spec: the scan of \<open>reclaim_untouched\<close>, ``skipping chunks whose
  skip-bit is set'' and ``adding one page's worth of bytes to accumulated_savings'' for
  each page released.
\<close>

fun reclaim_pages :: "nat list \<Rightarrow> Window \<Rightarrow> size_t \<Rightarrow> error + Window \<times> size_t" where
  "reclaim_pages [] m savings = Inr (m, savings)"
| "reclaim_pages (i # pages) m savings =
     (if m_chunk_dont_scan m ! chunk_of i \<or> \<not> reclaimable (m_page_state m ! i)
      then reclaim_pages pages m savings
      else
        (case reclaim_page i m of
           Inl e \<Rightarrow> Inl e
         | Inr m' \<Rightarrow> reclaim_pages pages m' (savings + page_size m)))"

text \<open>
  Modelled from the spec: \<open>reclaim_untouched(progress_ptr, accumulated_savings)\<close>. It
  ``scans pages starting at progress_ptr'', here up to the end of the table, where it
  leaves the cursor. A chunk that was scanned from its first page and whose pages are
  all Clean afterwards gets its skip bit set.
\<close>

definition reclaim_untouched ::
  "Window \<Rightarrow> size_t \<Rightarrow> size_t \<Rightarrow> error + Window \<times> size_t \<times> size_t" where
  "reclaim_untouched m progress_ptr accumulated_savings =
     (case reclaim_pages [unat progress_ptr ..< length (m_page_state m)] m accumulated_savings of
        Inl e \<Rightarrow> Inl e
      | Inr (m', savings) \<Rightarrow>
          Inr (set_dont_scan (\<lambda>c. unat progress_ptr \<le> push_bit page_to_chunk_shift c)
                 (\<lambda>ps. ps = Clean) m',
               max progress_ptr (of_nat (length (m_page_state m))), savings))"

text \<open>
  Modelled from the spec: the pages that a \<open>reclaim_untouched\<close> call evicts, which are
  those from the cursor on that are reclaimable and whose chunk is scanned.
\<close>

definition evicted_pages :: "Window \<Rightarrow> size_t \<Rightarrow> nat list" where
  "evicted_pages m progress_ptr =
     filter (\<lambda>i. \<not> m_chunk_dont_scan m ! chunk_of i \<and> reclaimable (m_page_state m ! i))
       [unat progress_ptr ..< length (m_page_state m)]"

subsection \<open>extend_to\<close>

text \<open>
  Modelled from the spec: the number of pages that a byte size covers (``table length
  always equals the number of pages covered by the current mapping's byte size'').
\<close>

definition pages_covering :: "'a EncryptedFileMapping_scheme \<Rightarrow> size_t \<Rightarrow> nat" where
  "pages_covering m sz =
     (unat sz + 2 ^ unat (m_page_shift m) - 1) div 2 ^ unat (m_page_shift m)"

definition chunks_covering :: "nat \<Rightarrow> nat" where
  "chunks_covering num_pages =
     drop_bit page_to_chunk_shift (num_pages + (2 ^ page_to_chunk_shift - 1))"

text \<open>
  Modelled from the spec: \<open>extend_to(offset, new_size)\<close>. It ``grows the mapping's page
  table to cover new_size; newly added pages start Clean. Existing pages and their
  state are preserved.'' The skip bitmap grows with it, the bits of new chunks unset.
\<close>

definition extend_to :: "Window \<Rightarrow> size_t \<Rightarrow> size_t \<Rightarrow> Window" where
  "extend_to m offset new_size =
     (let n = length (m_page_state m);
          num_pages = pages_covering m new_size;
          num_chunks = chunks_covering (max n num_pages)
      in m\<lparr>m_page_state := m_page_state m @ replicate (num_pages - n) Clean,
           m_chunk_dont_scan :=
             m_chunk_dont_scan m @ replicate (num_chunks - length (m_chunk_dont_scan m)) False\<rparr>)"

subsection \<open>A cryptor for the examples\<close>

text \<open>
  A stand-in for the cipher, used to run the operations on concrete windows: the
  ciphertext is the plaintext reversed and the IV is its checksum, which \<open>decrypt\<close>
  verifies.
\<close>

definition example_iv :: "bytes \<Rightarrow> iv" where
  "example_iv p = sum_list (map unat p)"

definition example_encrypt :: "bytes \<Rightarrow> bytes \<times> iv" where
  "example_encrypt p = (rev p, example_iv p)"

definition example_decrypt :: "bytes \<Rightarrow> iv \<Rightarrow> bytes option" where
  "example_decrypt c v = (if example_iv c = v then Some (rev c) else None)"

definition example_file :: "(nat \<Rightarrow> bytes \<times> iv) \<Rightarrow> SharedFileInfo" where
  "example_file img = \<lparr>encrypt = example_encrypt, decrypt = example_decrypt, image = img\<rparr>"

definition example_window ::
  "PageState list \<Rightarrow> (nat \<Rightarrow> bytes \<times> iv) \<Rightarrow> (nat \<Rightarrow> bytes) \<Rightarrow> (nat \<Rightarrow> iv option) \<Rightarrow> Window" where
  "example_window states img mem ivs =
     \<lparr>m_page_shift = 12, m_addr = 0x10000, m_first_page = 0, m_num_decrypted = 0,
      m_page_state = states, m_chunk_dont_scan = [False],
      m_file = example_file img, memory = mem, recorded_iv = ivs\<rparr>"

text \<open>
  Two images of a file: every page holds the ciphertext of \<open>[3, 2, 1]\<close>; in the second
  image another process has committed new contents for page 2.
\<close>

definition example_image :: "nat \<Rightarrow> bytes \<times> iv" where
  "example_image g = ([1, 2, 3], 6)"

definition example_image_changed :: "nat \<Rightarrow> bytes \<times> iv" where
  "example_image_changed g = (if g = 2 then ([9, 8], 17) else ([1, 2, 3], 6))"

text \<open>
  A window of three pages that have not been touched, and one whose three pages have
  been read: each holds the plaintext \<open>[3, 2, 1]\<close> under the IV of the first image.
\<close>

definition window_A :: Window where
  "window_A = example_window [0, 0, 0] example_image (\<lambda>i. []) (\<lambda>i. None)"

definition window_B :: Window where
  "window_B = example_window [2, 2, 2] example_image (\<lambda>i. [3, 2, 1]) (\<lambda>i. Some 6)"

section \<open>Vocabulary for the properties\<close>

subsection \<open>Invariants of the page table\<close>

text \<open>
  Modelled from the spec: the invariant of the chunk skip-bitmap. It has one bit per
  chunk of the table, and a set bit promises that no page of the chunk is Dirty (``a
  chunk's bit may only be true if every page in that chunk is in a state requiring no
  action'': the action of a flush is on Dirty pages).
\<close>

definition chunk_inv :: "'a EncryptedFileMapping_scheme \<Rightarrow> bool" where
  "chunk_inv m \<longleftrightarrow>
     length (m_chunk_dont_scan m) = chunks_covering (length (m_page_state m)) \<and>
     (\<forall>i < length (m_page_state m).
        m_chunk_dont_scan m ! chunk_of i \<longrightarrow> is_not (m_page_state m ! i) Dirty)"

text \<open>
  A page that is Touched, Writable or Dirty holds current plaintext: the barrier sets
  Writable and Touched on pages that are UpToDate only, and Dirty is set on Writable
  pages only.
\<close>

definition page_inv :: "PageState \<Rightarrow> bool" where
  "page_inv ps \<longleftrightarrow>
     (is_ps ps Touched \<or> is_ps ps Writable \<or> is_ps ps Dirty \<longrightarrow> is_ps ps UpToDate)"

definition flags_inv :: "'a EncryptedFileMapping_scheme \<Rightarrow> bool" where
  "flags_inv m \<longleftrightarrow> (\<forall>ps\<in>set (m_page_state m). page_inv ps)"

subsection \<open>What the operations do to one page\<close>

text \<open>The state that \<open>flush\<close> leaves a page in, given the skip bitmap.\<close>

definition flushed :: "bool list \<Rightarrow> nat \<Rightarrow> PageState \<Rightarrow> PageState" where
  "flushed bits i ps =
     (if bits ! chunk_of i \<or> is_not ps Dirty then ps else clear (clear ps Dirty) Writable)"

text \<open>The test that \<open>reclaim_pages\<close> makes on a page, and the window after releasing it.\<close>

definition evicts :: "Window \<Rightarrow> nat \<Rightarrow> bool" where
  "evicts m i \<longleftrightarrow> \<not> m_chunk_dont_scan m ! chunk_of i \<and> reclaimable (m_page_state m ! i)"

definition released :: "nat \<Rightarrow> Window \<Rightarrow> Window" where
  "released i m =
     update_page_state i (\<lambda>ps. Clean)
       (m\<lparr>memory := (memory m)(i := []), recorded_iv := (recorded_iv m)(i := None)\<rparr>)"

text \<open>
  The IV of a page in the shared image, whether it is the one recorded for the plaintext
  in memory, and what decrypting the page's ciphertext gives.
\<close>

definition current_iv :: "Window \<Rightarrow> nat \<Rightarrow> iv" where
  "current_iv m i = read_current_iv (m_file m) (page_in_file m i)"

definition iv_unchanged :: "Window \<Rightarrow> nat \<Rightarrow> bool" where
  "iv_unchanged m i \<longleftrightarrow> recorded_iv m i = Some (current_iv m i)"

definition decrypted_page :: "Window \<Rightarrow> nat \<Rightarrow> bytes option" where
  "decrypted_page m i =
     decrypt (m_file m) (fst (image (m_file m) (page_in_file m i))) (current_iv m i)"

text \<open>
  A page stays as it is through a barrier when it is UpToDate and, if it is StaleIV,
  its IV has not changed; otherwise the barrier decrypts it.
\<close>

definition kept_current :: "Window \<Rightarrow> nat \<Rightarrow> bool" where
  "kept_current m i \<longleftrightarrow>
     is_ps (m_page_state m ! i) UpToDate \<and>
     (is_ps (m_page_state m ! i) StaleIV \<longrightarrow> iv_unchanged m i)"

definition made_current :: "Window \<Rightarrow> Window \<Rightarrow> nat \<Rightarrow> bool" where
  "made_current m m' i \<longleftrightarrow>
     is_ps (m_page_state m' ! i) UpToDate \<and> is_not (m_page_state m' ! i) StaleIV \<and>
     (if kept_current m i
      then memory m' i = memory m i \<and> recorded_iv m' i = recorded_iv m i
      else decrypted_page m i = Some (memory m' i) \<and> recorded_iv m' i = Some (current_iv m i))"

text \<open>What an operation on one page leaves alone: the other pages and the frame.\<close>

definition same_page :: "Window \<Rightarrow> Window \<Rightarrow> nat \<Rightarrow> bool" where
  "same_page m m' i \<longleftrightarrow>
     m_page_state m' ! i = m_page_state m ! i \<and> memory m' i = memory m i \<and>
     recorded_iv m' i = recorded_iv m i"

definition same_frame :: "Window \<Rightarrow> Window \<Rightarrow> bool" where
  "same_frame m m' \<longleftrightarrow>
     m_file m' = m_file m \<and> m_first_page m' = m_first_page m \<and>
     m_page_shift m' = m_page_shift m \<and> m_addr m' = m_addr m \<and>
     length (m_page_state m') = length (m_page_state m)"

section \<open>Properties of the address translation\<close>

lemma page_mask_eq: "push_bit n (1 :: size_t) - 1 = mask n"
  by (simp add: mask_eq_exp_minus_1 push_bit_eq_mult)

lemma pow_mask_eq: "2 ^ n - 1 = (mask n :: size_t)"
  by (simp add: mask_eq_exp_minus_1)

lemma unat_sub_le: "b \<le> a \<Longrightarrow> unat (a - b) = unat a - unat (b :: size_t)"
  by (simp add: unat_sub)

lemma split_at_shift: "push_bit n (drop_bit n w) + (w AND mask n) = (w :: size_t)"
  by (simp add: take_bit_eq_mask [symmetric] bits_ident)

lemma unat_and_mask: "unat (w AND mask n) = unat (w :: size_t) mod 2 ^ n"
proof -
  have "unat (w AND mask n) = unat (take_bit n w)"
    by (simp only: take_bit_eq_mask)
  also have "\<dots> = take_bit n (unat w)"
    by (rule unsigned_take_bit_eq)
  also have "\<dots> = unat w mod 2 ^ n"
    by (rule take_bit_eq_mod)
  finally show ?thesis .
qed

lemma unat_drop_bit_div: "unat (drop_bit n w) = unat (w :: size_t) div 2 ^ n"
  unfolding unat_drop_bit_eq by (rule drop_bit_eq_div)

lemma exact_index:
  assumes "m_addr m \<le> addr" and "unat addr - unat (m_addr m) + unat offset < 2 ^ 64"
  shows "unat (drop_bit n (addr - m_addr m + offset)) =
           (unat addr - unat (m_addr m) + unat offset) div 2 ^ n"
proof -
  have "unat (addr - m_addr m + offset) = unat (addr - m_addr m) + unat offset"
    using assms by (simp add: unat_add_lem [THEN iffD1] unat_sub_le)
  then show ?thesis
    using assms(1) by (simp add: unat_drop_bit_div unat_sub_le)
qed

lemma unat_split_at_shift:
  "unat (drop_bit n w) * 2 ^ n + unat (w AND mask n) = unat (w :: size_t)"
proof -
  have "unat (drop_bit n w) = unat w div 2 ^ n"
    by (rule unat_drop_bit_div)
  moreover have "unat (w AND mask n) = unat w mod 2 ^ n"
    by (rule unat_and_mask)
  ultimately show ?thesis
    by (simp only: div_mult_mod_eq)
qed

text \<open>
  C1. \<open>contains_page\<close> is true exactly for the global page indices in the half-open
  interval from \<open>m_first_page\<close> to \<open>m_first_page\<close> plus the length of the page-state
  table, and its evaluation never performs a subtraction that wraps below zero.
\<close>

theorem contains_page_interval:
  "contains_page_eval m p = Some (contains_page m p) \<and>
   (contains_page m p \<longleftrightarrow>
      unat (m_first_page m) \<le> unat p \<and>
      unat p < unat (m_first_page m) + length (m_page_state m))"
proof (cases "m_first_page m \<le> p")
  case True
  then have le: "unat (m_first_page m) \<le> unat p"
    by (simp add: word_le_nat_alt)
  have sub: "unat (p - m_first_page m) = unat p - unat (m_first_page m)"
    using True by (rule unat_sub_le)
  have "contains_page_eval m p = Some (contains_page m p)"
    using True le by (simp add: contains_page_eval_def contains_page_def sub_no_wrap_def)
  moreover have "contains_page m p \<longleftrightarrow>
      unat (m_first_page m) \<le> unat p \<and>
      unat p < unat (m_first_page m) + length (m_page_state m)"
    using True le sub by (auto simp: contains_page_def)
  ultimately show ?thesis
    by blast
next
  case False
  then have "\<not> unat (m_first_page m) \<le> unat p"
    by (simp add: word_le_nat_alt)
  with False show ?thesis
    by (simp add: contains_page_eval_def contains_page_def)
qed

text \<open>
  C2. \<open>get_local_index_of_address\<close> returns \<open>(addr - base + offset) >> page_shift\<close>
  (in \<open>size_t\<close> arithmetic) and every index it returns is below the length of the page
  table; when \<open>addr\<close> precedes the base or the index is not below the length of the
  table, the call fails fatally. When \<open>addr - base + offset\<close> does not exceed the range
  of \<open>size_t\<close>, the index returned is exactly that sum divided by the page size.
\<close>

theorem get_local_index_of_address_checked:
  "get_local_index_of_address m addr offset =
     (if addr < m_addr m \<or>
         length (m_page_state m) \<le>
           unat (drop_bit (unat (m_page_shift m)) (addr - m_addr m + offset))
      then Inl Fatal
      else Inr (drop_bit (unat (m_page_shift m)) (addr - m_addr m + offset))) \<and>
   (\<forall>i. get_local_index_of_address m addr offset = Inr i \<longrightarrow>
      0 \<le> unat i \<and> unat i < length (m_page_state m) \<and>
      (unat addr - unat (m_addr m) + unat offset < 2 ^ 64 \<longrightarrow>
         unat i = (unat addr - unat (m_addr m) + unat offset) div 2 ^ unat (m_page_shift m)))"
proof (intro conjI allI impI)
  show "get_local_index_of_address m addr offset =
     (if addr < m_addr m \<or>
         length (m_page_state m) \<le>
           unat (drop_bit (unat (m_page_shift m)) (addr - m_addr m + offset))
      then Inl Fatal
      else Inr (drop_bit (unat (m_page_shift m)) (addr - m_addr m + offset)))"
    by (auto simp: get_local_index_of_address_def REALM_ASSERT_def Let_def not_le not_less)
next
  fix i
  show "0 \<le> unat i"
    by simp
next
  fix i
  assume "get_local_index_of_address m addr offset = Inr i"
  then show "unat i < length (m_page_state m)"
    by (auto simp: get_local_index_of_address_def REALM_ASSERT_def Let_def split: if_splits)
next
  fix i
  assume r: "get_local_index_of_address m addr offset = Inr i"
    and small: "unat addr - unat (m_addr m) + unat offset < 2 ^ 64"
  from r have le: "m_addr m \<le> addr"
    and i: "i = drop_bit (unat (m_page_shift m)) (addr - m_addr m + offset)"
    by (auto simp: get_local_index_of_address_def REALM_ASSERT_def Let_def split: if_splits)
  show "unat i = (unat addr - unat (m_addr m) + unat offset) div 2 ^ unat (m_page_shift m)"
    unfolding i using le small by (rule exact_index)
qed

theorem get_local_index_of_address_checked_witness:
  "get_local_index_of_address
     \<lparr>m_page_shift = 12, m_addr = 0x10000, m_first_page = 0, m_num_decrypted = 0,
      m_page_state = [0, 0, 0], m_chunk_dont_scan = [False]\<rparr> 0x12345 0 = Inr 2 \<and>
   unat (2 :: size_t) < length [0 :: PageState, 0, 0]"
proof -
  let ?m = "\<lparr>m_page_shift = 12, m_addr = 0x10000, m_first_page = 0, m_num_decrypted = 0,
      m_page_state = [0 :: PageState, 0, 0], m_chunk_dont_scan = [False]\<rparr>"
  have r: "get_local_index_of_address ?m 0x12345 0 = Inr 2"
    using get_local_index_of_address_checked [of ?m "0x12345" 0, THEN conjunct1]
    by (simp add: drop_bit_eq_div)
  from get_local_index_of_address_checked [of ?m "0x12345" 0, THEN conjunct2, rule_format, OF r]
  have "unat (2 :: size_t) < length (m_page_state ?m)"
    by (rule conjunct2 [THEN conjunct1])
  with r show ?thesis
    by simp
qed

text \<open>
  C7. \<open>get_offset_of_address\<close> returns \<open>addr - base\<close> masked with the page size minus
  one, which is the offset of \<open>addr\<close> inside its page; when \<open>addr\<close> precedes the base
  the call fails fatally.
\<close>

theorem get_offset_of_address_masked:
  "get_offset_of_address m addr =
     (if addr < m_addr m then Inl Fatal
      else Inr ((addr - m_addr m) AND (2 ^ unat (m_page_shift m) - 1))) \<and>
   (\<forall>off. get_offset_of_address m addr = Inr off \<longrightarrow>
      unat off = (unat addr - unat (m_addr m)) mod 2 ^ unat (m_page_shift m))"
proof -
  have eq: "get_offset_of_address m addr =
     (if addr < m_addr m then Inl Fatal
      else Inr ((addr - m_addr m) AND (2 ^ unat (m_page_shift m) - 1)))"
    by (auto simp: get_offset_of_address_def REALM_ASSERT_def push_bit_eq_mult not_le)
  have "unat off = (unat addr - unat (m_addr m)) mod 2 ^ unat (m_page_shift m)"
    if r: "get_offset_of_address m addr = Inr off" for off
  proof -
    from r have le: "m_addr m \<le> addr"
      and off: "off = (addr - m_addr m) AND mask (unat (m_page_shift m))"
      by (auto simp: get_offset_of_address_def REALM_ASSERT_def pow_mask_eq split: if_splits)
    have "unat off = unat (addr - m_addr m) mod 2 ^ unat (m_page_shift m)"
      unfolding off by (rule unat_and_mask)
    then show ?thesis
      using le by (simp add: unat_sub_le)
  qed
  with eq show ?thesis
    by blast
qed

theorem get_offset_of_address_masked_witness:
  "get_offset_of_address
     \<lparr>m_page_shift = 12, m_addr = 0x10000, m_first_page = 0, m_num_decrypted = 0,
      m_page_state = [0, 0, 0], m_chunk_dont_scan = [False]\<rparr> 0x12345 = Inr 0x345 \<and>
   unat (0x345 :: size_t) = (unat (0x12345 :: size_t) - unat (0x10000 :: size_t)) mod 2 ^ 12"
  using get_offset_of_address_masked
    [of "\<lparr>m_page_shift = 12, m_addr = 0x10000, m_first_page = 0, m_num_decrypted = 0,
      m_page_state = [0, 0, 0], m_chunk_dont_scan = [False]\<rparr>" "0x12345"]
  by simp

text \<open>
  C9. The minimum size of an encrypted file is 8192 bytes.
\<close>

theorem c_min_encrypted_file_size_value:
  "unat c_min_encrypted_file_size = 8192"
  by (simp add: c_min_encrypted_file_size_def)

text \<open>
  C10. For an address at or after the base whose page index is inside the table, the
  page index shifted left by the page shift plus the offset inside the page is
  \<open>addr - base\<close>, and the offset is below the page size \<open>2 ^ page_shift\<close>. The sum is
  exact: it does not wrap around.
\<close>

theorem address_decomposition:
  assumes "m_addr m \<le> addr"
    and "get_local_index_of_address m addr 0 = Inr i"
  shows "\<exists>off. get_offset_of_address m addr = Inr off \<and>
           push_bit (unat (m_page_shift m)) i + off = addr - m_addr m \<and>
           unat i * 2 ^ unat (m_page_shift m) + unat off = unat addr - unat (m_addr m) \<and>
           unat off < 2 ^ unat (m_page_shift m)"
proof -
  let ?n = "unat (m_page_shift m)"
  let ?w = "addr - m_addr m"
  from assms have i: "i = drop_bit ?n ?w"
    by (auto simp: get_local_index_of_address_def REALM_ASSERT_def Let_def split: if_splits)
  have off: "get_offset_of_address m addr = Inr (?w AND mask ?n)"
    using assms(1) by (simp add: get_offset_of_address_def REALM_ASSERT_def pow_mask_eq)
  have "push_bit ?n i + (?w AND mask ?n) = ?w"
    unfolding i by (rule split_at_shift)
  moreover have "unat i * 2 ^ ?n + unat (?w AND mask ?n) = unat addr - unat (m_addr m)"
    unfolding i using assms(1) by (simp add: unat_split_at_shift unat_sub_le)
  moreover have "unat (?w AND mask ?n) < 2 ^ ?n"
    unfolding unat_and_mask by simp
  ultimately show ?thesis
    using off by blast
qed

theorem address_decomposition_witness:
  "get_offset_of_address
     \<lparr>m_page_shift = 12, m_addr = 0x10000, m_first_page = 0, m_num_decrypted = 0,
      m_page_state = [0, 0, 0], m_chunk_dont_scan = [False]\<rparr> 0x12345 = Inr 0x345 \<and>
   push_bit 12 (2 :: size_t) + 0x345 = 0x12345 - 0x10000"
proof -
  let ?m = "\<lparr>m_page_shift = 12, m_addr = 0x10000, m_first_page = 0, m_num_decrypted = 0,
      m_page_state = [0 :: PageState, 0, 0], m_chunk_dont_scan = [False]\<rparr>"
  have a: "m_addr ?m \<le> 0x12345"
    by simp
  have b: "get_local_index_of_address ?m 0x12345 0 = Inr 2"
    by (simp add: get_local_index_of_address_def REALM_ASSERT_def drop_bit_eq_div)
  show ?thesis
    using address_decomposition [OF a b]
    by (simp add: get_offset_of_address_def REALM_ASSERT_def push_bit_eq_mult)
qed

section \<open>Page flags\<close>


lemma is_ps_bit: "is_ps ps (2 ^ k) \<longleftrightarrow> bit ps k"
  by (simp add: is_ps_def and_exp_eq_0_iff_not_bit)

lemma is_not_iff: "is_not ps p \<longleftrightarrow> \<not> is_ps ps p"
  by (simp add: is_not_def is_ps_def)

lemma bit_set_ps: "k < 32 \<Longrightarrow> bit (set_ps ps (2 ^ k)) j \<longleftrightarrow> bit ps j \<or> j = k"
  by (auto simp: set_ps_def bit_simps dest: bit_imp_le_length)

lemma bit_clear: "bit (clear ps (2 ^ k)) j \<longleftrightarrow> bit ps j \<and> j \<noteq> k"
  by (auto simp: clear_def bit_simps dest: bit_imp_le_length)

lemma is_ps_OR: "is_ps ps (a OR b) \<longleftrightarrow> is_ps ps a \<or> is_ps ps b"
  by (simp add: is_ps_def bit.conj_disj_distrib or_eq_0_iff)

lemma is_ps_flag:
  "is_ps ps Touched \<longleftrightarrow> bit ps 0"
  "is_ps ps UpToDate \<longleftrightarrow> bit ps 1"
  "is_ps ps StaleIV \<longleftrightarrow> bit ps 2"
  "is_ps ps Writable \<longleftrightarrow> bit ps 3"
  "is_ps ps Dirty \<longleftrightarrow> bit ps 4"
  using is_ps_bit [of ps 0] is_ps_bit [of ps 1] is_ps_bit [of ps 2] is_ps_bit [of ps 3]
    is_ps_bit [of ps 4]
  by (simp_all add: Touched_def UpToDate_def StaleIV_def Writable_def Dirty_def)

lemma bit_set_flag:
  "bit (set_ps ps Touched) j \<longleftrightarrow> bit ps j \<or> j = 0"
  "bit (set_ps ps UpToDate) j \<longleftrightarrow> bit ps j \<or> j = 1"
  "bit (set_ps ps StaleIV) j \<longleftrightarrow> bit ps j \<or> j = 2"
  "bit (set_ps ps Writable) j \<longleftrightarrow> bit ps j \<or> j = 3"
  "bit (set_ps ps Dirty) j \<longleftrightarrow> bit ps j \<or> j = 4"
  using bit_set_ps [of 0 ps j] bit_set_ps [of 1 ps j] bit_set_ps [of 2 ps j]
    bit_set_ps [of 3 ps j] bit_set_ps [of 4 ps j]
  by (simp_all add: Touched_def UpToDate_def StaleIV_def Writable_def Dirty_def)

lemma bit_clear_flag:
  "bit (clear ps Touched) j \<longleftrightarrow> bit ps j \<and> j \<noteq> 0"
  "bit (clear ps UpToDate) j \<longleftrightarrow> bit ps j \<and> j \<noteq> 1"
  "bit (clear ps StaleIV) j \<longleftrightarrow> bit ps j \<and> j \<noteq> 2"
  "bit (clear ps Writable) j \<longleftrightarrow> bit ps j \<and> j \<noteq> 3"
  "bit (clear ps Dirty) j \<longleftrightarrow> bit ps j \<and> j \<noteq> 4"
  using bit_clear [of ps 0 j] bit_clear [of ps 1 j] bit_clear [of ps 2 j]
    bit_clear [of ps 3 j] bit_clear [of ps 4 j]
  by (simp_all add: Touched_def UpToDate_def StaleIV_def Writable_def Dirty_def)

lemma is_ps_Clean: "\<not> is_ps Clean p"
  by (simp add: is_ps_def Clean_def)

lemma bit_Clean: "\<not> bit Clean j"
  by (simp add: Clean_def)

lemmas flag_simps =
  is_not_iff is_ps_OR is_ps_flag bit_set_flag bit_clear_flag is_ps_Clean bit_Clean


section \<open>The primitive updates\<close>

lemma update_page_state_simps:
  "m_page_state (update_page_state i f m) = (m_page_state m)[i := f (m_page_state m ! i)]"
  "m_chunk_dont_scan (update_page_state i f m) = m_chunk_dont_scan m"
  "m_file (update_page_state i f m) = m_file m"
  "memory (update_page_state i f m) = memory m"
  "recorded_iv (update_page_state i f m) = recorded_iv m"
  "m_first_page (update_page_state i f m) = m_first_page m"
  "m_page_shift (update_page_state i f m) = m_page_shift m"
  "m_addr (update_page_state i f m) = m_addr m"
  "m_num_decrypted (update_page_state i f m) = m_num_decrypted m"
  by (simp_all add: update_page_state_def)

lemma clear_dont_scan_simps:
  "m_page_state (clear_dont_scan i m) = m_page_state m"
  "m_chunk_dont_scan (clear_dont_scan i m) = (m_chunk_dont_scan m)[chunk_of i := False]"
  "m_file (clear_dont_scan i m) = m_file m"
  "memory (clear_dont_scan i m) = memory m"
  "recorded_iv (clear_dont_scan i m) = recorded_iv m"
  "m_first_page (clear_dont_scan i m) = m_first_page m"
  "m_page_shift (clear_dont_scan i m) = m_page_shift m"
  "m_addr (clear_dont_scan i m) = m_addr m"
  "m_num_decrypted (clear_dont_scan i m) = m_num_decrypted m"
  by (simp_all add: clear_dont_scan_def)

lemma set_dont_scan_simps:
  "m_page_state (set_dont_scan sc q m) = m_page_state m"
  "length (m_chunk_dont_scan (set_dont_scan sc q m)) = length (m_chunk_dont_scan m)"
  "m_file (set_dont_scan sc q m) = m_file m"
  "memory (set_dont_scan sc q m) = memory m"
  "recorded_iv (set_dont_scan sc q m) = recorded_iv m"
  "m_first_page (set_dont_scan sc q m) = m_first_page m"
  "m_page_shift (set_dont_scan sc q m) = m_page_shift m"
  "m_addr (set_dont_scan sc q m) = m_addr m"
  "m_num_decrypted (set_dont_scan sc q m) = m_num_decrypted m"
  by (simp_all add: set_dont_scan_def)

lemmas prim_simps = update_page_state_simps clear_dont_scan_simps set_dont_scan_simps

section \<open>Properties of \<open>flush\<close>\<close>

lemma flush_page_frame:
  "m_chunk_dont_scan (flush_page i m) = m_chunk_dont_scan m"
  "length (m_page_state (flush_page i m)) = length (m_page_state m)"
  "j \<noteq> i \<Longrightarrow> m_page_state (flush_page i m) ! j = m_page_state m ! j"
  "memory (flush_page i m) = memory m"
  by (simp_all add: flush_page_def prim_simps split: prod.splits)

lemma flush_page_self:
  "i < length (m_page_state m) \<Longrightarrow>
   m_page_state (flush_page i m) ! i = flushed (m_chunk_dont_scan m) i (m_page_state m ! i)"
  by (simp add: flush_page_def flushed_def prim_simps split: prod.splits)

lemma fold_flush_page:
  assumes "distinct pages" and "\<forall>i\<in>set pages. i < length (m_page_state m)"
  shows "m_chunk_dont_scan (fold flush_page pages m) = m_chunk_dont_scan m \<and>
         memory (fold flush_page pages m) = memory m \<and>
         length (m_page_state (fold flush_page pages m)) = length (m_page_state m) \<and>
         (\<forall>j. m_page_state (fold flush_page pages m) ! j =
            (if j \<in> set pages then flushed (m_chunk_dont_scan m) j (m_page_state m ! j)
             else m_page_state m ! j))"
  using assms
proof (induction pages arbitrary: m)
  case Nil
  then show ?case by simp
next
  case (Cons i pages)
  let ?m1 = "flush_page i m"
  from Cons.prems have d: "distinct pages" and ni: "i \<notin> set pages"
    and b: "\<forall>k\<in>set pages. k < length (m_page_state ?m1)" and i: "i < length (m_page_state m)"
    by (simp_all add: flush_page_frame)
  note IH = Cons.IH [OF d b]
  have other: "m_page_state ?m1 ! j = m_page_state m ! j" if "j \<in> set pages" for j
    using that ni by (intro flush_page_frame) auto
  show ?case
    using IH ni i by (auto simp: flush_page_frame flush_page_self other)
qed

lemma flush_page_states:
  "length (m_page_state (flush m)) = length (m_page_state m) \<and>
   memory (flush m) = memory m \<and>
   (\<forall>i < length (m_page_state m).
      m_page_state (flush m) ! i = flushed (m_chunk_dont_scan m) i (m_page_state m ! i))"
  using fold_flush_page [of "[0 ..< length (m_page_state m)]" m]
  by (simp add: flush_def prim_simps)

text \<open>
  C3. \<open>flush\<close> clears Dirty and Writable on every page that was Dirty and changes no
  other flag of it, so UpToDate stays as it was; every page that was not Dirty keeps
  its state, a Writable page that is not Dirty stays Writable. The page table keeps
  its length and the decrypted memory is not touched. \<open>flush\<close> is a total function
  without an error result: nothing propagates out of it.
\<close>

theorem flush_clears_dirty_pages:
  assumes "chunk_inv m"
  shows "length (m_page_state (flush m)) = length (m_page_state m) \<and>
     memory (flush m) = memory m \<and>
     (\<forall>i < length (m_page_state m).
        (is_ps (m_page_state m ! i) Dirty \<longrightarrow>
           m_page_state (flush m) ! i = clear (clear (m_page_state m ! i) Dirty) Writable \<and>
           is_not (m_page_state (flush m) ! i) Dirty \<and>
           is_not (m_page_state (flush m) ! i) Writable \<and>
           (is_ps (m_page_state (flush m) ! i) UpToDate \<longleftrightarrow>
              is_ps (m_page_state m ! i) UpToDate)) \<and>
        (is_not (m_page_state m ! i) Dirty \<longrightarrow>
           m_page_state (flush m) ! i = m_page_state m ! i))"
proof -
  have "m_page_state (flush m) ! i = clear (clear (m_page_state m ! i) Dirty) Writable \<and>
           is_not (m_page_state (flush m) ! i) Dirty \<and>
           is_not (m_page_state (flush m) ! i) Writable \<and>
           (is_ps (m_page_state (flush m) ! i) UpToDate \<longleftrightarrow>
              is_ps (m_page_state m ! i) UpToDate)"
    if "i < length (m_page_state m)" and "is_ps (m_page_state m ! i) Dirty" for i
  proof -
    from assms that have "\<not> m_chunk_dont_scan m ! chunk_of i"
      by (auto simp: chunk_inv_def is_not_iff)
    with that have "m_page_state (flush m) ! i = clear (clear (m_page_state m ! i) Dirty) Writable"
      using flush_page_states [of m] by (simp add: flushed_def is_not_iff)
    then show ?thesis
      by (simp add: flag_simps)
  qed
  moreover have "m_page_state (flush m) ! i = m_page_state m ! i"
    if "i < length (m_page_state m)" and "is_not (m_page_state m ! i) Dirty" for i
    using that flush_page_states [of m] by (simp add: flushed_def)
  ultimately show ?thesis
    using flush_page_states [of m] by blast
qed

theorem flush_clears_dirty_pages_witness:
  "chunk_inv (example_window [11, 27, 11] example_image (\<lambda>i. [1, 2]) (\<lambda>i. None)) \<and>
   m_page_state (flush (example_window [11, 27, 11] example_image (\<lambda>i. [1, 2]) (\<lambda>i. None))) ! 1 = 3 \<and>
   m_page_state (flush (example_window [11, 27, 11] example_image (\<lambda>i. [1, 2]) (\<lambda>i. None))) ! 0 = 11"
proof -
  let ?W = "example_window [11, 27, 11] example_image (\<lambda>i. [1, 2]) (\<lambda>i. None)"
  have inv: "chunk_inv ?W"
    by code_simp
  have ps: "m_page_state ?W = [11, 27, 11]"
    by (simp add: example_window_def)
  have d: "is_ps (m_page_state ?W ! 1) Dirty" "is_not (m_page_state ?W ! 0) Dirty"
    "clear (clear (27 :: PageState) Dirty) Writable = 3"
    by code_simp+
  from flush_clears_dirty_pages [OF inv] d show ?thesis
    using inv by (simp add: ps)
qed

section \<open>Properties of \<open>extend_to\<close>\<close>

text \<open>
  C8. When \<open>extend_to\<close> grows the table from \<open>n\<close> pages to the \<open>k > n\<close> pages that the
  new size covers, the first \<open>n\<close> pages keep their state and the pages from \<open>n\<close> to
  \<open>k - 1\<close> are Clean.
\<close>

theorem extend_to_states:
  assumes "length (m_page_state m) < pages_covering m new_size"
  shows "length (m_page_state (extend_to m offset new_size)) = pages_covering m new_size \<and>
     (\<forall>i < length (m_page_state m).
        m_page_state (extend_to m offset new_size) ! i = m_page_state m ! i) \<and>
     (\<forall>i. length (m_page_state m) \<le> i \<and> i < pages_covering m new_size \<longrightarrow>
        m_page_state (extend_to m offset new_size) ! i = Clean)"
  using assms by (auto simp: extend_to_def Let_def nth_append)

theorem extend_to_states_witness:
  "length (m_page_state (extend_to (example_window [3, 11] example_image (\<lambda>i. []) (\<lambda>i. None))
      0 20480)) = 5 \<and>
   m_page_state (extend_to (example_window [3, 11] example_image (\<lambda>i. []) (\<lambda>i. None))
      0 20480) ! 1 = 11 \<and>
   m_page_state (extend_to (example_window [3, 11] example_image (\<lambda>i. []) (\<lambda>i. None))
      0 20480) ! 4 = Clean"
proof -
  let ?W = "example_window [3, 11] example_image (\<lambda>i. []) (\<lambda>i. None)"
  have k: "pages_covering ?W 20480 = 5"
    by code_simp
  have ps: "m_page_state ?W = [3, 11]"
    by (simp add: example_window_def)
  have h: "length (m_page_state ?W) < pages_covering ?W 20480"
    by (simp add: k ps)
  from extend_to_states [OF h, of 0] show ?thesis
    by (simp add: k ps)
qed


section \<open>Properties of \<open>write_barrier\<close>\<close>

lemma mark_dirty_Inr:
  "mark_dirty i m = Inr m' \<longleftrightarrow>
     i < length (m_page_state m) \<and> is_ps (m_page_state m ! i) Writable \<and>
     m' = clear_dont_scan i (update_page_state i (\<lambda>ps. set_ps ps Dirty) m)"
  by (auto simp: mark_dirty_def REALM_ASSERT_def)

lemma mark_dirty_Inl:
  "mark_dirty i m = Inl e \<longleftrightarrow>
     e = Fatal \<and> \<not> (i < length (m_page_state m) \<and> is_ps (m_page_state m ! i) Writable)"
  by (auto simp: mark_dirty_def REALM_ASSERT_def)

lemma mark_dirty_pages_ok:
  assumes "distinct pages"
    and "\<forall>i\<in>set pages. i < length (m_page_state m) \<and> is_ps (m_page_state m ! i) Writable"
  shows "\<exists>m'. mark_dirty_pages pages m = Inr m' \<and>
           length (m_page_state m') = length (m_page_state m) \<and>
           (\<forall>j. m_page_state m' ! j =
              (if j \<in> set pages then set_ps (m_page_state m ! j) Dirty else m_page_state m ! j)) \<and>
           m_file m' = m_file m \<and> memory m' = memory m \<and> recorded_iv m' = recorded_iv m"
  using assms
proof (induction pages arbitrary: m)
  case Nil
  then show ?case by simp
next
  case (Cons i pages)
  let ?m1 = "clear_dont_scan i (update_page_state i (\<lambda>ps. set_ps ps Dirty) m)"
  from Cons.prems have i: "i < length (m_page_state m)" "is_ps (m_page_state m ! i) Writable"
    and ni: "i \<notin> set pages" and d: "distinct pages"
    by simp_all
  have step: "mark_dirty i m = Inr ?m1"
    using i by (simp add: mark_dirty_Inr)
  have other: "m_page_state ?m1 ! j = m_page_state m ! j" if "j \<in> set pages" for j
  proof -
    from that ni have "j \<noteq> i" by auto
    then show ?thesis by (simp add: prim_simps)
  qed
  have pre: "\<forall>j\<in>set pages. j < length (m_page_state ?m1) \<and> is_ps (m_page_state ?m1 ! j) Writable"
    using Cons.prems(2) other by (simp add: prim_simps)
  from Cons.IH [OF d pre] obtain m' where
    m': "mark_dirty_pages pages ?m1 = Inr m'"
      "length (m_page_state m') = length (m_page_state ?m1)"
      "\<forall>j. m_page_state m' ! j =
         (if j \<in> set pages then set_ps (m_page_state ?m1 ! j) Dirty else m_page_state ?m1 ! j)"
      "m_file m' = m_file ?m1" "memory m' = memory ?m1" "recorded_iv m' = recorded_iv ?m1"
    by blast
  have "mark_dirty_pages (i # pages) m = Inr m'"
    using step m'(1) by simp
  moreover have "m_page_state m' ! j =
      (if j \<in> set (i # pages) then set_ps (m_page_state m ! j) Dirty else m_page_state m ! j)" for j
    using m'(3) ni i other by (auto simp: prim_simps)
  ultimately show ?case
    using m'(2,4,5,6) by (simp add: prim_simps)
qed

lemma mark_dirty_pages_fatal:
  assumes "distinct pages"
    and "\<exists>i\<in>set pages. \<not> (i < length (m_page_state m) \<and> is_ps (m_page_state m ! i) Writable)"
  shows "mark_dirty_pages pages m = Inl Fatal"
  using assms
proof (induction pages arbitrary: m)
  case Nil
  then show ?case by simp
next
  case (Cons i pages)
  show ?case
  proof (cases "mark_dirty i m")
    case (Inl e)
    then have "e = Fatal" by (simp add: mark_dirty_Inl)
    with Inl show ?thesis by simp
  next
    case (Inr m1)
    then have i: "i < length (m_page_state m)" "is_ps (m_page_state m ! i) Writable"
      and m1: "m1 = clear_dont_scan i (update_page_state i (\<lambda>ps. set_ps ps Dirty) m)"
      by (simp_all add: mark_dirty_Inr)
    from Cons.prems i obtain j where j: "j \<in> set pages"
      "\<not> (j < length (m_page_state m) \<and> is_ps (m_page_state m ! j) Writable)"
      by auto
    from Cons.prems(1) j(1) have "j \<noteq> i"
      by auto
    then have "m_page_state m1 ! j = m_page_state m ! j" "length (m_page_state m1) = length (m_page_state m)"
      by (simp_all add: m1 prim_simps)
    with j have "\<exists>j\<in>set pages. \<not> (j < length (m_page_state m1) \<and> is_ps (m_page_state m1 ! j) Writable)"
      by (intro bexI [of _ j]) simp_all
    with Cons.IH [of m1] Cons.prems(1) have "mark_dirty_pages pages m1 = Inl Fatal"
      by simp
    with Inr show ?thesis by simp
  qed
qed

lemma pages_of_range_distinct: "pages_of_range m addr sz = Inr pages \<Longrightarrow> distinct pages"
  by (auto simp: pages_of_range_def split: if_splits sum.splits)

lemma pages_of_range_Inl: "pages_of_range m addr sz = Inl e \<Longrightarrow> e = Fatal"
  by (auto simp: pages_of_range_def get_local_index_of_address_def REALM_ASSERT_def Let_def
      split: if_splits sum.splits)

text \<open>
  C4. When every page that the byte range overlaps is in the table and Writable (as
  \<open>read_barrier\<close> with \<open>to_modify\<close> leaves it), \<open>write_barrier\<close> returns and Dirty is set
  on each of these pages, the other pages keep their state, and the shared file, the
  decrypted memory and the recorded IVs are as before: nothing is encrypted. When one
  of the pages is not Writable, or the range is not inside the window, the call fails
  fatally.
\<close>

theorem write_barrier_marks_dirty:
  "(case pages_of_range m addr sz of
      Inl e \<Rightarrow> write_barrier m addr sz = Inl Fatal
    | Inr pages \<Rightarrow>
        if \<forall>i\<in>set pages. i < length (m_page_state m) \<and> is_ps (m_page_state m ! i) Writable
        then \<exists>m'. write_barrier m addr sz = Inr m' \<and>
               length (m_page_state m') = length (m_page_state m) \<and>
               (\<forall>i\<in>set pages. is_ps (m_page_state m' ! i) Dirty) \<and>
               (\<forall>i < length (m_page_state m). m_page_state m' ! i =
                  (if i \<in> set pages then set_ps (m_page_state m ! i) Dirty
                   else m_page_state m ! i)) \<and>
               m_file m' = m_file m \<and> memory m' = memory m \<and> recorded_iv m' = recorded_iv m
        else write_barrier m addr sz = Inl Fatal)"
proof (cases "pages_of_range m addr sz")
  case (Inl e)
  then show ?thesis
    using pages_of_range_Inl [OF Inl] by (simp add: write_barrier_def)
next
  case (Inr pages)
  note d = pages_of_range_distinct [OF Inr]
  show ?thesis
  proof (cases "\<forall>i\<in>set pages. i < length (m_page_state m) \<and> is_ps (m_page_state m ! i) Writable")
    case True
    from mark_dirty_pages_ok [OF d True] obtain m' where
      m': "mark_dirty_pages pages m = Inr m'"
        "length (m_page_state m') = length (m_page_state m)"
        "\<forall>j. m_page_state m' ! j =
           (if j \<in> set pages then set_ps (m_page_state m ! j) Dirty else m_page_state m ! j)"
        "m_file m' = m_file m" "memory m' = memory m" "recorded_iv m' = recorded_iv m"
      by blast
    have "is_ps (m_page_state m' ! i) Dirty" if "i \<in> set pages" for i
      using m'(3) that by (simp add: flag_simps)
    then show ?thesis
      using Inr True m' by (simp add: write_barrier_def)
  next
    case False
    then have "mark_dirty_pages pages m = Inl Fatal"
      using mark_dirty_pages_fatal [OF d] by blast
    then show ?thesis
      using Inr False by (simp add: write_barrier_def)
  qed
qed

theorem write_barrier_marks_dirty_witness:
  "(\<exists>m'. write_barrier (example_window [11, 11, 11] example_image (\<lambda>i. [1, 2]) (\<lambda>i. None))
            0x11000 0x1000 = Inr m' \<and>
         is_ps (m_page_state m' ! 1) Dirty \<and> m_page_state m' ! 0 = 11) \<and>
   write_barrier (example_window [11, 3, 11] example_image (\<lambda>i. [1, 2]) (\<lambda>i. None))
     0x11000 0x1000 = Inl Fatal"
proof -
  let ?W = "example_window [11, 11, 11] example_image (\<lambda>i. [1, 2]) (\<lambda>i. None)"
  let ?V = "example_window [11, 3, 11] example_image (\<lambda>i. [1, 2]) (\<lambda>i. None)"
  have p: "pages_of_range ?W 0x11000 0x1000 = Inr [1]" "pages_of_range ?V 0x11000 0x1000 = Inr [1]"
    by code_simp+
  have w: "is_ps (11 :: PageState) Writable" "\<not> is_ps (3 :: PageState) Writable"
    by code_simp+
  have ps: "m_page_state ?W = [11, 11, 11]" "m_page_state ?V = [11, 3, 11]"
    by (simp_all add: example_window_def)
  from write_barrier_marks_dirty [of ?W "0x11000" "0x1000"]
    write_barrier_marks_dirty [of ?V "0x11000" "0x1000"]
  show ?thesis
    by (auto simp: p ps w)
qed


section \<open>Properties of \<open>reclaim_untouched\<close>\<close>

lemma reclaimable_not_Dirty: "reclaimable ps \<Longrightarrow> is_not ps Dirty \<and> is_not ps Writable"
  by (auto simp: reclaimable_def flag_simps)

lemma reclaim_page_reclaimable:
  "reclaimable (m_page_state m ! i) \<Longrightarrow> reclaim_page i m = Inr (released i m)"
  by (simp add: reclaim_page_def released_def REALM_ASSERT_def reclaimable_not_Dirty)

lemma released_simps:
  "m_page_state (released i m) = (m_page_state m)[i := Clean]"
  "m_chunk_dont_scan (released i m) = m_chunk_dont_scan m"
  "m_file (released i m) = m_file m"
  "memory (released i m) = (memory m)(i := [])"
  "recorded_iv (released i m) = (recorded_iv m)(i := None)"
  "m_page_shift (released i m) = m_page_shift m"
  "page_size (released i m) = page_size m"
  by (simp_all add: released_def prim_simps page_size_def)

lemma reclaim_pages_result:
  assumes "distinct pages" and "\<forall>i\<in>set pages. i < length (m_page_state m)"
  shows "\<exists>m'. reclaim_pages pages m s =
             Inr (m', s + of_nat (length (filter (evicts m) pages)) * page_size m) \<and>
           length (m_page_state m') = length (m_page_state m) \<and>
           m_chunk_dont_scan m' = m_chunk_dont_scan m \<and>
           m_file m' = m_file m \<and>
           (\<forall>j. m_page_state m' ! j =
                  (if j \<in> set pages \<and> evicts m j then Clean else m_page_state m ! j) \<and>
                memory m' j = (if j \<in> set pages \<and> evicts m j then [] else memory m j))"
  using assms
proof (induction pages arbitrary: m s)
  case Nil
  then show ?case by simp
next
  case (Cons i pages)
  from Cons.prems have d: "distinct pages" and ni: "i \<notin> set pages"
    and i: "i < length (m_page_state m)" and b: "\<forall>j\<in>set pages. j < length (m_page_state m)"
    by simp_all
  show ?case
  proof (cases "evicts m i")
    case False
    from Cons.IH [OF d b, of s] obtain m' where
      m': "reclaim_pages pages m s =
             Inr (m', s + of_nat (length (filter (evicts m) pages)) * page_size m)"
        "length (m_page_state m') = length (m_page_state m)"
        "m_chunk_dont_scan m' = m_chunk_dont_scan m" "m_file m' = m_file m"
        "\<forall>j. m_page_state m' ! j =
                  (if j \<in> set pages \<and> evicts m j then Clean else m_page_state m ! j) \<and>
             memory m' j = (if j \<in> set pages \<and> evicts m j then [] else memory m j)"
      by blast
    have "reclaim_pages (i # pages) m s =
            Inr (m', s + of_nat (length (filter (evicts m) (i # pages))) * page_size m)"
    proof -
      from False have "m_chunk_dont_scan m ! chunk_of i \<or> \<not> reclaimable (m_page_state m ! i)"
        by (simp add: evicts_def)
      with False m'(1) show ?thesis by simp
    qed
    moreover have "m_page_state m' ! j =
                  (if j \<in> set (i # pages) \<and> evicts m j then Clean else m_page_state m ! j) \<and>
             memory m' j = (if j \<in> set (i # pages) \<and> evicts m j then [] else memory m j)" for j
      using m'(5) False by auto
    ultimately show ?thesis
      using m'(2,3,4) by blast
  next
    case True
    let ?m1 = "released i m"
    have step: "reclaim_page i m = Inr ?m1"
      using True by (simp add: evicts_def reclaim_page_reclaimable)
    have same: "evicts ?m1 j = evicts m j" if "j \<in> set pages" for j
    proof -
      from that ni have "j \<noteq> i" by auto
      then show ?thesis by (simp add: evicts_def released_simps)
    qed
    then have filt: "filter (evicts ?m1) pages = filter (evicts m) pages"
      by (auto intro: filter_cong)
    have cond: "(j \<in> set pages \<and> evicts ?m1 j) = (j \<in> set pages \<and> evicts m j)" for j
      using same by auto
    have b1: "\<forall>j\<in>set pages. j < length (m_page_state ?m1)"
      using b by (simp add: released_simps)
    from Cons.IH [OF d b1, of "s + page_size m"] obtain m' where
      m': "reclaim_pages pages ?m1 (s + page_size m) =
             Inr (m', s + page_size m +
                      of_nat (length (filter (evicts ?m1) pages)) * page_size ?m1)"
        "length (m_page_state m') = length (m_page_state ?m1)"
        "m_chunk_dont_scan m' = m_chunk_dont_scan ?m1" "m_file m' = m_file ?m1"
        "\<forall>j. m_page_state m' ! j =
                  (if j \<in> set pages \<and> evicts ?m1 j then Clean else m_page_state ?m1 ! j) \<and>
             memory m' j = (if j \<in> set pages \<and> evicts ?m1 j then [] else memory ?m1 j)"
      by blast
    have "reclaim_pages (i # pages) m s =
            Inr (m', s + of_nat (length (filter (evicts m) (i # pages))) * page_size m)"
    proof -
      from True have "\<not> (m_chunk_dont_scan m ! chunk_of i \<or> \<not> reclaimable (m_page_state m ! i))"
        by (simp add: evicts_def)
      with True step m'(1) filt show ?thesis
        by (simp add: released_simps algebra_simps)
    qed
    moreover have "m_page_state m' ! j =
                  (if j \<in> set (i # pages) \<and> evicts m j then Clean else m_page_state m ! j) \<and>
             memory m' j = (if j \<in> set (i # pages) \<and> evicts m j then [] else memory m j)" for j
    proof (cases "j = i")
      case True
      with m'(5) ni i \<open>evicts m i\<close> show ?thesis
        by (simp add: released_simps)
    next
      case False
      with m'(5) show ?thesis
        by (simp add: released_simps cond)
    qed
    ultimately show ?thesis
      using m'(2,3,4) by (simp add: released_simps)
  qed
qed

text \<open>
  C5. \<open>reclaim_untouched\<close> always returns. A page that is Dirty or Writable before the
  call is not among the evicted pages, and every page that is not evicted keeps its
  state and its decrypted memory. Every evicted page was Clean, or UpToDate with neither
  Dirty nor Writable, and the savings grow by one page size for each evicted page.
\<close>

theorem reclaim_untouched_spares_dirty:
  "\<exists>m' p' s'. reclaim_untouched m progress_ptr savings = Inr (m', p', s') \<and>
      length (m_page_state m') = length (m_page_state m) \<and>
      (\<forall>i < length (m_page_state m).
         is_ps (m_page_state m ! i) Dirty \<or> is_ps (m_page_state m ! i) Writable \<longrightarrow>
           i \<notin> set (evicted_pages m progress_ptr)) \<and>
      (\<forall>i < length (m_page_state m). i \<notin> set (evicted_pages m progress_ptr) \<longrightarrow>
           m_page_state m' ! i = m_page_state m ! i \<and> memory m' i = memory m i) \<and>
      (\<forall>i \<in> set (evicted_pages m progress_ptr).
           (m_page_state m ! i = Clean \<or>
            is_ps (m_page_state m ! i) UpToDate \<and> is_not (m_page_state m ! i) Dirty \<and>
            is_not (m_page_state m ! i) Writable) \<and>
           m_page_state m' ! i = Clean \<and> memory m' i = []) \<and>
      s' = savings + of_nat (length (evicted_pages m progress_ptr)) * page_size m"
proof -
  let ?pages = "[unat progress_ptr ..< length (m_page_state m)]"
  have ev: "evicted_pages m progress_ptr = filter (evicts m) ?pages"
    unfolding evicted_pages_def evicts_def [abs_def] by simp
  have "distinct ?pages" "\<forall>i\<in>set ?pages. i < length (m_page_state m)"
    by simp_all
  from reclaim_pages_result [OF this, of savings] obtain m1 where
    m1: "reclaim_pages ?pages m savings =
             Inr (m1, savings + of_nat (length (filter (evicts m) ?pages)) * page_size m)"
        "length (m_page_state m1) = length (m_page_state m)"
        "\<forall>j. m_page_state m1 ! j =
                  (if j \<in> set ?pages \<and> evicts m j then Clean else m_page_state m ! j) \<and>
             memory m1 j = (if j \<in> set ?pages \<and> evicts m j then [] else memory m j)"
    by blast
  let ?m' = "set_dont_scan (\<lambda>c. unat progress_ptr \<le> push_bit page_to_chunk_shift c)
                 (\<lambda>ps. ps = Clean) m1"
  have r: "reclaim_untouched m progress_ptr savings =
      Inr (?m', max progress_ptr (of_nat (length (m_page_state m))),
           savings + of_nat (length (evicted_pages m progress_ptr)) * page_size m)"
    using m1(1) by (simp add: reclaim_untouched_def ev)
  have spare: "i \<notin> set (evicted_pages m progress_ptr)"
    if "is_ps (m_page_state m ! i) Dirty \<or> is_ps (m_page_state m ! i) Writable" for i
    using that reclaimable_not_Dirty [of "m_page_state m ! i"]
    by (auto simp: ev evicts_def flag_simps)
  have keep: "m_page_state ?m' ! i = m_page_state m ! i \<and> memory ?m' i = memory m i"
    if "i \<notin> set (evicted_pages m progress_ptr)" for i
    using that m1(3) by (auto simp: ev prim_simps)
  have gone: "(m_page_state m ! i = Clean \<or>
            is_ps (m_page_state m ! i) UpToDate \<and> is_not (m_page_state m ! i) Dirty \<and>
            is_not (m_page_state m ! i) Writable) \<and>
           m_page_state ?m' ! i = Clean \<and> memory ?m' i = []"
    if "i \<in> set (evicted_pages m progress_ptr)" for i
  proof -
    from that have "i \<in> set ?pages" "evicts m i"
      by (simp_all add: ev)
    with m1(3) show ?thesis
      by (auto simp: prim_simps evicts_def reclaimable_def)
  qed
  show ?thesis
    using r m1(2) spare keep gone by (simp add: prim_simps)
qed

theorem reclaim_untouched_spares_dirty_witness:
  "\<exists>m' p'. reclaim_untouched
       (example_window [2, 27, 0, 11] example_image (\<lambda>i. [1, 2]) (\<lambda>i. None)) 0 0 =
         Inr (m', p', 8192) \<and>
       m_page_state m' ! 1 = 27 \<and> memory m' 1 = [1, 2] \<and>
       m_page_state m' ! 3 = 11 \<and> memory m' 3 = [1, 2] \<and>
       m_page_state m' ! 0 = Clean \<and> memory m' 0 = []"
proof -
  let ?W = "example_window [2, 27, 0, 11] example_image (\<lambda>i. [1, 2]) (\<lambda>i. None)"
  have ev: "evicted_pages ?W 0 = [0, 2]"
    by code_simp
  have sz: "page_size ?W = 4096"
    by code_simp
  have ps: "m_page_state ?W = [2, 27, 0, 11]" "memory ?W = (\<lambda>i. [1, 2])"
    by (simp_all add: example_window_def)
  from reclaim_untouched_spares_dirty [of ?W 0 0] obtain m' p' s' where
    r: "reclaim_untouched ?W 0 0 = Inr (m', p', s')"
    and keep: "\<forall>i < length (m_page_state ?W). i \<notin> set (evicted_pages ?W 0) \<longrightarrow>
           m_page_state m' ! i = m_page_state ?W ! i \<and> memory m' i = memory ?W i"
    and gone: "\<forall>i \<in> set (evicted_pages ?W 0).
           m_page_state m' ! i = Clean \<and> memory m' i = []"
    and s': "s' = 0 + of_nat (length (evicted_pages ?W 0)) * page_size ?W"
    by blast
  from keep have "m_page_state m' ! 1 = 27 \<and> memory m' 1 = [1, 2]"
    "m_page_state m' ! 3 = 11 \<and> memory m' 3 = [1, 2]"
    by (simp_all add: ev ps)
  moreover from gone have "m_page_state m' ! 0 = Clean \<and> memory m' 0 = []"
    by (simp add: ev)
  moreover from s' have "s' = 8192"
    by (simp add: ev sz)
  ultimately show ?thesis
    using r by blast
qed


section \<open>Properties of \<open>read_barrier\<close>\<close>

lemma check_stale_iv_frame:
  "same_frame m (check_stale_iv i m)"
  "memory (check_stale_iv i m) = memory m"
  "recorded_iv (check_stale_iv i m) = recorded_iv m"
  "m_chunk_dont_scan (check_stale_iv i m) = m_chunk_dont_scan m"
  "j \<noteq> i \<Longrightarrow> m_page_state (check_stale_iv i m) ! j = m_page_state m ! j"
  by (simp_all add: check_stale_iv_def same_frame_def prim_simps)

lemma check_stale_iv_self:
  assumes "i < length (m_page_state m)"
  shows "is_not (m_page_state (check_stale_iv i m) ! i) StaleIV"
    and "is_ps (m_page_state (check_stale_iv i m) ! i) UpToDate \<longleftrightarrow> kept_current m i"
    and "is_ps (m_page_state (check_stale_iv i m) ! i) Touched \<longleftrightarrow> is_ps (m_page_state m ! i) Touched"
    and "is_ps (m_page_state (check_stale_iv i m) ! i) Writable \<longleftrightarrow> is_ps (m_page_state m ! i) Writable"
    and "is_ps (m_page_state (check_stale_iv i m) ! i) Dirty \<longleftrightarrow> is_ps (m_page_state m ! i) Dirty"
  using assms
  by (auto simp: check_stale_iv_def kept_current_def iv_unchanged_def current_iv_def
      prim_simps flag_simps)

lemma refresh_page_Inr:
  assumes "refresh_page i m = Inr m'" and "i < length (m_page_state m)"
  shows "same_frame m m'"
    and "decrypted_page m i = Some (memory m' i)"
    and "recorded_iv m' i = Some (current_iv m i)"
    and "m_page_state m' ! i = set_ps (m_page_state m ! i) UpToDate"
    and "m_chunk_dont_scan m' = m_chunk_dont_scan m"
    and "m_num_decrypted m' = m_num_decrypted m + 1"
    and "\<forall>j. j \<noteq> i \<longrightarrow> same_page m m' j"
  using assms
  by (auto simp: refresh_page_def same_frame_def decrypted_page_def current_iv_def
      read_current_iv_def same_page_def prim_simps split: prod.splits option.splits)

lemma same_frame_trans: "same_frame a b \<Longrightarrow> same_frame b c \<Longrightarrow> same_frame a c"
  by (simp add: same_frame_def)

lemma same_frame_refl: "same_frame a a"
  by (simp add: same_frame_def)

lemma same_page_trans: "same_page a b i \<Longrightarrow> same_page b c i \<Longrightarrow> same_page a c i"
  by (simp add: same_page_def)

lemma barrier_page_Inr:
  assumes "barrier_page to_modify i m = Inr m'"
  shows "i < length (m_page_state m)"
    and "same_frame m m'"
    and "made_current m m' i"
    and "\<forall>j. j \<noteq> i \<longrightarrow> same_page m m' j"
    and "to_modify \<longrightarrow> is_ps (m_page_state m' ! i) Writable \<and> is_ps (m_page_state m' ! i) Touched"
proof -
  from assms show i: "i < length (m_page_state m)"
    by (auto simp: barrier_page_def split: if_splits)
  let ?m2 = "check_stale_iv i m"
  have i2: "i < length (m_page_state ?m2)"
    using i check_stale_iv_frame(1) [of m i] by (simp add: same_frame_def)
  obtain m3 where m3: "(if is_not (m_page_state ?m2 ! i) UpToDate then refresh_page i ?m2 else Inr ?m2) = Inr m3"
    and m': "m' = (if to_modify
                  then clear_dont_scan i (update_page_state i (\<lambda>ps. set_ps (set_ps ps Writable) Touched) m3)
                  else clear_dont_scan i m3)"
    using assms i
    by (auto simp: barrier_page_def Let_def REALM_ASSERT_def split: if_splits sum.splits)
  have f23: "same_frame ?m2 m3"
    and p3: "is_ps (m_page_state m3 ! i) UpToDate" "is_not (m_page_state m3 ! i) StaleIV"
    and o23: "\<forall>j. j \<noteq> i \<longrightarrow> same_page ?m2 m3 j"
    and c3: "if kept_current m i
             then memory m3 i = memory m i \<and> recorded_iv m3 i = recorded_iv m i
             else decrypted_page m i = Some (memory m3 i) \<and> recorded_iv m3 i = Some (current_iv m i)"
  proof -
    show "same_frame ?m2 m3"
      using m3 refresh_page_Inr(1) [OF _ i2] by (auto simp: same_frame_refl split: if_splits)
    show "is_ps (m_page_state m3 ! i) UpToDate"
      using m3 refresh_page_Inr(4) [OF _ i2]
      by (auto simp: flag_simps split: if_splits)
    show "is_not (m_page_state m3 ! i) StaleIV"
      using m3 refresh_page_Inr(4) [OF _ i2] check_stale_iv_self(1) [OF i]
      by (auto simp: flag_simps split: if_splits)
    show "\<forall>j. j \<noteq> i \<longrightarrow> same_page ?m2 m3 j"
      using m3 refresh_page_Inr(7) [OF _ i2] by (auto simp: same_page_def split: if_splits)
    have dp: "decrypted_page ?m2 i = decrypted_page m i" "current_iv ?m2 i = current_iv m i"
      using check_stale_iv_frame(1) [of m i]
      by (simp_all add: decrypted_page_def current_iv_def same_frame_def page_in_file_def)
    show "if kept_current m i
             then memory m3 i = memory m i \<and> recorded_iv m3 i = recorded_iv m i
             else decrypted_page m i = Some (memory m3 i) \<and> recorded_iv m3 i = Some (current_iv m i)"
      using m3 refresh_page_Inr(2,3) [OF _ i2] check_stale_iv_self(2) [OF i] dp
      by (auto simp: is_not_iff check_stale_iv_frame split: if_splits)
  qed
  have ps': "is_ps (m_page_state m' ! i) UpToDate \<longleftrightarrow> is_ps (m_page_state m3 ! i) UpToDate"
    "is_ps (m_page_state m' ! i) StaleIV \<longleftrightarrow> is_ps (m_page_state m3 ! i) StaleIV"
    "memory m' = memory m3" "recorded_iv m' = recorded_iv m3"
    "same_frame m3 m'" "\<forall>j. j \<noteq> i \<longrightarrow> same_page m3 m' j"
    using i2 f23 by (auto simp: m' prim_simps flag_simps same_frame_def same_page_def)
  show "same_frame m m'"
    using check_stale_iv_frame(1) [of m i] f23 ps'(5) by (blast intro: same_frame_trans)
  show "made_current m m' i"
    using p3 c3 ps'(1-4) by (simp add: made_current_def is_not_iff)
  show "\<forall>j. j \<noteq> i \<longrightarrow> same_page m m' j"
    using o23 ps'(6) by (auto simp: same_page_def check_stale_iv_frame)
  show "to_modify \<longrightarrow> is_ps (m_page_state m' ! i) Writable \<and> is_ps (m_page_state m' ! i) Touched"
    using i2 f23 by (auto simp: m' prim_simps flag_simps same_frame_def)
qed


lemma made_current_post:
  "made_current m m1 i \<Longrightarrow> same_page m1 m' i \<Longrightarrow> made_current m m' i"
  by (simp add: made_current_def same_page_def)

lemma made_current_pre:
  assumes "same_frame m m1" and "same_page m m1 i" and "made_current m1 m' i"
  shows "made_current m m' i"
proof -
  from assms(1,2) have eqs: "kept_current m1 i = kept_current m i"
    "decrypted_page m1 i = decrypted_page m i" "current_iv m1 i = current_iv m i"
    "memory m1 i = memory m i" "recorded_iv m1 i = recorded_iv m i"
    by (simp_all add: same_frame_def same_page_def kept_current_def iv_unchanged_def
        decrypted_page_def current_iv_def page_in_file_def)
  from assms(3) show ?thesis
    unfolding made_current_def eqs .
qed

lemma barrier_pages_Inr:
  assumes "barrier_pages to_modify pages m = Inr m'" and "distinct pages"
  shows "same_frame m m' \<and>
         (\<forall>j. j \<notin> set pages \<longrightarrow> same_page m m' j) \<and>
         (\<forall>i\<in>set pages. made_current m m' i \<and>
            (to_modify \<longrightarrow> is_ps (m_page_state m' ! i) Writable \<and>
                            is_ps (m_page_state m' ! i) Touched))"
  using assms
proof (induction pages arbitrary: m)
  case Nil
  then show ?case by (simp add: same_frame_def same_page_def)
next
  case (Cons i pages)
  from Cons.prems(1) obtain m1 where
    m1: "barrier_page to_modify i m = Inr m1" and rest: "barrier_pages to_modify pages m1 = Inr m'"
    by (auto split: sum.splits)
  from Cons.prems(2) have d: "distinct pages" and ni: "i \<notin> set pages"
    by simp_all
  note first = barrier_page_Inr [OF m1]
  note IH = Cons.IH [OF rest d]
  have frame: "same_frame m m'"
    using first(2) IH by (blast intro: same_frame_trans)
  have other: "same_page m m' j" if "j \<notin> set (i # pages)" for j
    using that first(4) IH by (auto intro: same_page_trans)
  have here: "made_current m m' i"
    using first(3) IH ni by (blast intro: made_current_post)
  have here_w: "is_ps (m_page_state m' ! i) Writable \<and> is_ps (m_page_state m' ! i) Touched"
    if to_modify
    using that first(5) IH ni by (auto simp: same_page_def)
  have later: "made_current m m' k" if "k \<in> set pages" for k
  proof -
    from that ni have "k \<noteq> i" by auto
    with first(4) have "same_page m m1 k" by simp
    with first(2) IH that show ?thesis
      by (blast intro: made_current_pre)
  qed
  show ?case
    using frame other here here_w later IH by auto
qed

lemma read_barrier_Inr:
  assumes "read_barrier m addr sz header_to_size to_modify = Inr m'"
  shows "same_frame m m' \<and>
         (\<forall>j. j \<notin> set (covered_pages m addr sz header_to_size to_modify) \<longrightarrow> same_page m m' j) \<and>
         (\<forall>i\<in>set (covered_pages m addr sz header_to_size to_modify).
            made_current m m' i \<and>
            (to_modify \<longrightarrow> is_ps (m_page_state m' ! i) Writable \<and>
                            is_ps (m_page_state m' ! i) Touched))"
proof (cases "sz = 0")
  case True
  with assms show ?thesis
    by (simp add: read_barrier_def covered_pages_def same_frame_def same_page_def)
next
  case False
  with assms obtain first m1 where
    first: "get_local_index_of_address m addr 0 = Inr first"
    and m1: "barrier_page to_modify (unat first) m = Inr m1"
    and rest: "barrier_pages to_modify (rest_pages m1 addr sz header_to_size (unat first)) m1 = Inr m'"
    by (auto simp: read_barrier_def split: sum.splits)
  have cov: "covered_pages m addr sz header_to_size to_modify =
               unat first # rest_pages m1 addr sz header_to_size (unat first)"
    using False first m1 by (simp add: covered_pages_def)
  have d: "distinct (unat first # rest_pages m1 addr sz header_to_size (unat first))"
    by (simp add: rest_pages_def)
  have "barrier_pages to_modify (unat first # rest_pages m1 addr sz header_to_size (unat first)) m =
          Inr m'"
    using m1 rest by simp
  from barrier_pages_Inr [OF this d] show ?thesis
    unfolding cov .
qed

lemma barrier_pages_in_table:
  "barrier_pages to_modify pages m = Inr m' \<Longrightarrow> \<forall>i\<in>set pages. i < length (m_page_state m)"
proof (induction pages arbitrary: m)
  case Nil
  then show ?case by simp
next
  case (Cons i pages)
  from Cons.prems obtain m1 where
    m1: "barrier_page to_modify i m = Inr m1" and rest: "barrier_pages to_modify pages m1 = Inr m'"
    by (auto split: sum.splits)
  from barrier_page_Inr(1,2) [OF m1] Cons.IH [OF rest] show ?case
    by (simp add: same_frame_def)
qed

text \<open>
  The protocol of the two barriers: after a \<open>read_barrier\<close> with \<open>to_modify\<close> has returned,
  a \<open>write_barrier\<close> on the same range returns as well.
\<close>

lemma write_barrier_after_read_barrier:
  assumes "read_barrier m addr sz None True = Inr m1"
  shows "\<exists>m2. write_barrier m1 addr sz = Inr m2"
proof (cases "sz = 0")
  case True
  then show ?thesis
    by (simp add: write_barrier_def pages_of_range_def)
next
  case False
  with assms obtain first ma where
    first: "get_local_index_of_address m addr 0 = Inr first"
    and ma: "barrier_page True (unat first) m = Inr ma"
    and rest: "barrier_pages True (rest_pages ma addr sz None (unat first)) ma = Inr m1"
    by (auto simp: read_barrier_def split: sum.splits)
  let ?pages = "unat first # rest_pages ma addr sz None (unat first)"
  have all: "barrier_pages True ?pages m = Inr m1"
    using ma rest by simp
  have d: "distinct ?pages"
    by (simp add: rest_pages_def)
  note r = barrier_pages_Inr [OF all d] and t = barrier_pages_in_table [OF all]
  from r have fr: "same_frame m m1"
    by simp
  from barrier_page_Inr(2) [OF ma] have fa: "same_frame m ma"
    by simp
  have idx: "get_local_index_of_address m1 addr 0 = Inr first"
    using first fr by (simp add: get_local_index_of_address_def same_frame_def)
  have last: "last_page_of m1 addr sz = last_page_of ma addr sz"
    using fr fa by (simp add: last_page_of_def same_frame_def)
  have pages: "pages_of_range m1 addr sz = Inr [unat first ..< Suc (last_page_of ma addr sz)]"
    using False idx last by (simp add: pages_of_range_def)
  have sub: "set [unat first ..< Suc (last_page_of ma addr sz)] \<subseteq> set ?pages"
    by (auto simp: rest_pages_def extended_size_def)
  have ok: "\<forall>i\<in>set [unat first ..< Suc (last_page_of ma addr sz)].
              i < length (m_page_state m1) \<and> is_ps (m_page_state m1 ! i) Writable"
  proof
    fix i assume "i \<in> set [unat first ..< Suc (last_page_of ma addr sz)]"
    with sub have i: "i \<in> set ?pages" by blast
    with t fr have "i < length (m_page_state m1)"
      by (auto simp: same_frame_def)
    moreover from r i have "is_ps (m_page_state m1 ! i) Writable"
      by blast
    ultimately show "i < length (m_page_state m1) \<and> is_ps (m_page_state m1 ! i) Writable" ..
  qed
  have "distinct [unat first ..< Suc (last_page_of ma addr sz)]"
    by (rule distinct_upt)
  from mark_dirty_pages_ok [OF this ok] obtain m2 where
    "mark_dirty_pages [unat first ..< Suc (last_page_of ma addr sz)] m1 = Inr m2"
    by blast
  then show ?thesis
    using pages by (simp add: write_barrier_def)
qed

lemma mark_for_IV_check_flags:
  "is_ps (mark_for_IV_check ps) StaleIV \<longleftrightarrow>
     is_ps ps StaleIV \<or> is_ps ps Touched \<or> is_ps ps UpToDate"
  "is_ps (mark_for_IV_check ps) UpToDate \<longleftrightarrow> is_ps ps UpToDate"
  "is_ps (mark_for_IV_check ps) Touched \<longleftrightarrow> is_ps ps Touched"
  "is_ps (mark_for_IV_check ps) Writable \<longleftrightarrow> is_ps ps Writable"
  "is_ps (mark_for_IV_check ps) Dirty \<longleftrightarrow> is_ps ps Dirty"
  by (auto simp: mark_for_IV_check_def flag_simps)

text \<open>
  C6. Take a window whose pages satisfy the flag invariant, a page that
  \<open>mark_pages_for_IV_check\<close> marks (one that is Touched or UpToDate), and any state of
  the shared file at the time of the next \<open>read_barrier\<close>. The marking sets StaleIV on
  the page. When the barrier covers the page and returns, the page has StaleIV clear
  and UpToDate set; if the IV in the file equals the recorded one, the plaintext in
  memory is the one from before, and if it differs, the plaintext in memory is the
  decryption of the page's ciphertext in the file.
\<close>

theorem staleness_convergence:
  assumes "flags_inv m"
    and "i < length (m_page_state m)"
    and "is_ps (m_page_state m ! i) Touched \<or> is_ps (m_page_state m ! i) UpToDate"
    and "read_barrier ((mark_pages_for_IV_check m)\<lparr>m_file := F\<rparr>) addr sz header_to_size to_modify
           = Inr m'"
    and "i \<in> set (covered_pages ((mark_pages_for_IV_check m)\<lparr>m_file := F\<rparr>)
                     addr sz header_to_size to_modify)"
  shows "is_ps (m_page_state (mark_pages_for_IV_check m) ! i) StaleIV \<and>
         is_not (m_page_state m' ! i) StaleIV \<and> is_ps (m_page_state m' ! i) UpToDate \<and>
         (recorded_iv m i = Some (read_current_iv F (page_in_file m i)) \<longrightarrow>
            memory m' i = memory m i) \<and>
         (recorded_iv m i \<noteq> Some (read_current_iv F (page_in_file m i)) \<longrightarrow>
            decrypt F (fst (image F (page_in_file m i))) (read_current_iv F (page_in_file m i)) =
              Some (memory m' i))"
proof -
  let ?M = "(mark_pages_for_IV_check m)\<lparr>m_file := F\<rparr>"
  from assms(1,2) have "page_inv (m_page_state m ! i)"
    by (simp add: flags_inv_def)
  with assms(3) have up: "is_ps (m_page_state m ! i) UpToDate"
    by (auto simp: page_inv_def)
  have st: "m_page_state (mark_pages_for_IV_check m) ! i = mark_for_IV_check (m_page_state m ! i)"
    using assms(2) by (simp add: mark_pages_for_IV_check_def)
  have stale: "is_ps (m_page_state ?M ! i) StaleIV" "is_ps (m_page_state ?M ! i) UpToDate"
    using up by (simp_all add: st mark_for_IV_check_flags)
  have M: "memory ?M = memory m" "recorded_iv ?M = recorded_iv m" "m_file ?M = F"
    "page_in_file ?M i = page_in_file m i"
    by (simp_all add: mark_pages_for_IV_check_def page_in_file_def)
  have kept: "kept_current ?M i \<longleftrightarrow> recorded_iv m i = Some (read_current_iv F (page_in_file m i))"
    using stale M by (simp add: kept_current_def iv_unchanged_def current_iv_def)
  have dec: "decrypted_page ?M i =
      decrypt F (fst (image F (page_in_file m i))) (read_current_iv F (page_in_file m i))"
    using M by (simp add: decrypted_page_def current_iv_def)
  from read_barrier_Inr [OF assms(4)] assms(5) have "made_current ?M m' i"
    by blast
  then show ?thesis
    using stale(1) kept dec M(1)
    by (auto simp: made_current_def mark_pages_for_IV_check_def split: if_splits)
qed

theorem staleness_convergence_witness:
  "\<exists>m'. read_barrier ((mark_pages_for_IV_check window_B)
                        \<lparr>m_file := example_file example_image_changed\<rparr>)
          0x10000 0x3000 None False = Inr m' \<and>
     is_not (m_page_state m' ! 0) StaleIV \<and> is_ps (m_page_state m' ! 0) UpToDate \<and>
     memory m' 0 = [3, 2, 1] \<and>
     is_not (m_page_state m' ! 2) StaleIV \<and> is_ps (m_page_state m' ! 2) UpToDate \<and>
     memory m' 2 = [8, 9]"
proof -
  let ?F = "example_file example_image_changed"
  let ?M = "(mark_pages_for_IV_check window_B)\<lparr>m_file := ?F\<rparr>"
  have inv: "flags_inv window_B"
    by code_simp
  have ps: "length (m_page_state window_B) = 3" "m_page_state window_B ! 0 = 2"
    "m_page_state window_B ! 2 = 2" "memory window_B 0 = [3, 2, 1]"
    "recorded_iv window_B 0 = Some 6" "recorded_iv window_B 2 = Some 6"
    by code_simp+
  have marked: "is_ps (2 :: PageState) Touched \<or> is_ps (2 :: PageState) UpToDate"
    by code_simp
  have "case read_barrier ?M 0x10000 0x3000 None False of Inl e \<Rightarrow> False | Inr m' \<Rightarrow> True"
    by code_simp
  then obtain m' where rb: "read_barrier ?M 0x10000 0x3000 None False = Inr m'"
    by (auto split: sum.splits)
  have cov: "covered_pages ?M 0x10000 0x3000 None False = [0, 1, 2]"
    by code_simp
  have fv: "read_current_iv ?F (page_in_file window_B 0) = 6"
    "read_current_iv ?F (page_in_file window_B 2) = 17"
    "decrypt ?F (fst (image ?F (page_in_file window_B 2))) 17 = Some [8, 9]"
    by code_simp+
  from staleness_convergence [of window_B 0, OF inv _ _ rb]
  have p0: "is_not (m_page_state m' ! 0) StaleIV \<and> is_ps (m_page_state m' ! 0) UpToDate \<and>
     memory m' 0 = [3, 2, 1]"
    using marked by (simp add: ps cov fv)
  from staleness_convergence [of window_B 2, OF inv _ _ rb]
  have p2: "is_not (m_page_state m' ! 2) StaleIV \<and> is_ps (m_page_state m' ! 2) UpToDate \<and>
     memory m' 2 = [8, 9]"
    using marked by (simp add: ps cov fv)
  from rb p0 p2 show ?thesis
    by blast
qed

section \<open>The scenarios of the specification\<close>

text \<open>
  Scenario A. A barrier for modification over three pages makes each of them
  UpToDate, Writable and Touched; a \<open>write_barrier\<close> on page 1 makes only that page
  Dirty; \<open>flush\<close> takes Dirty and Writable from page 1 and leaves pages 0 and 2 as they
  are.
\<close>

lemma scenario_A:
  "(case read_barrier window_A 0x10000 0x3000 None True of
      Inl e \<Rightarrow> False
    | Inr m1 \<Rightarrow>
        m_page_state m1 = [11, 11, 11] \<and>
        (case write_barrier m1 0x11000 0x1000 of
           Inl e \<Rightarrow> False
         | Inr m2 \<Rightarrow>
             m_page_state m2 = [11, 27, 11] \<and>
             m_page_state (flush m2) = [11, 3, 11] \<and>
             m_chunk_dont_scan (flush m2) = [False]))"
  by code_simp

text \<open>
  Scenario B. Another process has committed page 2; after \<open>mark_pages_for_IV_check\<close> a
  \<open>read_barrier\<close> on page 2 decrypts one page and the plaintext differs from before.
\<close>

lemma scenario_B:
  "(case read_barrier ((mark_pages_for_IV_check window_B)
                         \<lparr>m_file := example_file example_image_changed\<rparr>)
           0x12000 1 None False of
      Inl e \<Rightarrow> False
    | Inr m' \<Rightarrow>
        m_num_decrypted m' = m_num_decrypted window_B + 1 \<and>
        memory m' 2 \<noteq> memory window_B 2 \<and>
        m_page_state m' = [6, 6, 2])"
  by code_simp

section \<open>The invariants are kept\<close>

lemma chunk_of_less: "i < n \<Longrightarrow> chunk_of i < chunks_covering n"
  by (simp add: chunk_of_def chunks_covering_def page_to_chunk_shift_def drop_bit_eq_div)

lemma chunks_covering_mono: "n \<le> k \<Longrightarrow> chunks_covering n \<le> chunks_covering k"
  by (simp add: chunks_covering_def page_to_chunk_shift_def drop_bit_eq_div div_le_mono)

lemma in_chunk_pages: "i < n \<Longrightarrow> i \<in> set (chunk_pages n (chunk_of i))"
  by (simp add: chunk_pages_def chunk_of_def page_to_chunk_shift_def drop_bit_eq_div
      push_bit_eq_mult)

lemma flags_inv_nth: "flags_inv m \<longleftrightarrow> (\<forall>i < length (m_page_state m). page_inv (m_page_state m ! i))"
  by (auto simp: flags_inv_def all_set_conv_all_nth)

lemma page_inv_UpToDate: "is_ps ps UpToDate \<Longrightarrow> page_inv ps"
  by (simp add: page_inv_def)

lemma page_inv_Clean: "page_inv Clean"
  by (simp add: page_inv_def is_ps_Clean)

lemma cleared_bit: "(bits[c := False]) ! k \<Longrightarrow> bits ! k"
  by (cases "c < length bits") (auto simp: nth_list_update list_update_beyond split: if_splits)

text \<open>A window whose pages are all Clean and whose skip bits are all unset.\<close>

lemma fresh_window_inv:
  assumes "m_page_state m = replicate n Clean"
    and "m_chunk_dont_scan m = replicate (chunks_covering n) False"
  shows "chunk_inv m \<and> flags_inv m"
  using assms
  by (auto simp: chunk_inv_def flags_inv_def page_inv_Clean is_not_iff is_ps_Clean)

lemma barrier_page_bits:
  assumes "barrier_page to_modify i m = Inr m'"
  shows "m_chunk_dont_scan m' = (m_chunk_dont_scan m)[chunk_of i := False]"
    and "is_ps (m_page_state m' ! i) Dirty \<longleftrightarrow> is_ps (m_page_state m ! i) Dirty"
proof -
  from assms have i: "i < length (m_page_state m)"
    by (rule barrier_page_Inr)
  let ?m2 = "check_stale_iv i m"
  have i2: "i < length (m_page_state ?m2)"
    using i check_stale_iv_frame(1) [of m i] by (simp add: same_frame_def)
  obtain m3 where m3: "(if is_not (m_page_state ?m2 ! i) UpToDate then refresh_page i ?m2 else Inr ?m2) = Inr m3"
    and m': "m' = (if to_modify
                  then clear_dont_scan i (update_page_state i (\<lambda>ps. set_ps (set_ps ps Writable) Touched) m3)
                  else clear_dont_scan i m3)"
    using assms i
    by (auto simp: barrier_page_def Let_def REALM_ASSERT_def split: if_splits sum.splits)
  have b3: "m_chunk_dont_scan m3 = m_chunk_dont_scan m"
    using m3 refresh_page_Inr(5) [OF _ i2]
    by (auto simp: check_stale_iv_frame split: if_splits)
  have d3: "is_ps (m_page_state m3 ! i) Dirty \<longleftrightarrow> is_ps (m_page_state m ! i) Dirty"
    using m3 refresh_page_Inr(4) [OF _ i2] check_stale_iv_self(5) [OF i]
    by (auto simp: flag_simps split: if_splits)
  have l3: "i < length (m_page_state m3)"
    using m3 refresh_page_Inr(1) [OF _ i2] i2 by (auto simp: same_frame_def split: if_splits)
  show "m_chunk_dont_scan m' = (m_chunk_dont_scan m)[chunk_of i := False]"
    by (simp add: m' b3 prim_simps)
  show "is_ps (m_page_state m' ! i) Dirty \<longleftrightarrow> is_ps (m_page_state m ! i) Dirty"
    using d3 l3 by (simp add: m' prim_simps flag_simps)
qed

lemma barrier_page_inv:
  assumes "barrier_page to_modify i m = Inr m'" and "chunk_inv m \<and> flags_inv m"
  shows "chunk_inv m' \<and> flags_inv m'"
proof -
  note r = barrier_page_Inr [OF assms(1)] and b = barrier_page_bits [OF assms(1)]
  have len: "length (m_page_state m') = length (m_page_state m)"
    using r(2) by (simp add: same_frame_def)
  have dirty: "is_ps (m_page_state m' ! j) Dirty \<longleftrightarrow> is_ps (m_page_state m ! j) Dirty" for j
    using b(2) r(4) by (cases "j = i") (auto simp: same_page_def)
  have "chunk_inv m'"
    using assms(2) cleared_bit [of "m_chunk_dont_scan m" "chunk_of i"]
    by (auto simp: chunk_inv_def len b(1) dirty is_not_iff)
  moreover have "page_inv (m_page_state m' ! j)" if "j < length (m_page_state m)" for j
  proof (cases "j = i")
    case True
    with r(3) show ?thesis
      by (simp add: made_current_def page_inv_UpToDate)
  next
    case False
    with r(4) have "m_page_state m' ! j = m_page_state m ! j"
      by (simp add: same_page_def)
    with assms(2) that show ?thesis
      by (simp add: flags_inv_nth)
  qed
  ultimately show ?thesis
    by (simp add: flags_inv_nth len)
qed

lemma barrier_pages_inv:
  assumes "barrier_pages to_modify pages m = Inr m'" and "chunk_inv m \<and> flags_inv m"
  shows "chunk_inv m' \<and> flags_inv m'"
  using assms
proof (induction pages arbitrary: m)
  case Nil
  then show ?case by simp
next
  case (Cons i pages)
  from Cons.prems(1) obtain m1 where
    m1: "barrier_page to_modify i m = Inr m1" and rest: "barrier_pages to_modify pages m1 = Inr m'"
    by (auto split: sum.splits)
  from barrier_page_inv [OF m1 Cons.prems(2)] rest show ?case
    by (rule Cons.IH [rotated])
qed

lemma read_barrier_inv:
  assumes "read_barrier m addr sz header_to_size to_modify = Inr m'"
    and "chunk_inv m \<and> flags_inv m"
  shows "chunk_inv m' \<and> flags_inv m'"
proof (cases "sz = 0")
  case True
  with assms show ?thesis
    by (simp add: read_barrier_def)
next
  case False
  with assms(1) obtain first m1 where
    first: "get_local_index_of_address m addr 0 = Inr first"
    and m1: "barrier_page to_modify (unat first) m = Inr m1"
    and rest: "barrier_pages to_modify (rest_pages m1 addr sz header_to_size (unat first)) m1 = Inr m'"
    by (auto simp: read_barrier_def split: sum.splits)
  from barrier_pages_inv [OF rest barrier_page_inv [OF m1 assms(2)]] show ?thesis .
qed

lemma mark_dirty_inv:
  assumes "mark_dirty i m = Inr m'" and "chunk_inv m \<and> flags_inv m"
  shows "chunk_inv m' \<and> flags_inv m'"
proof -
  from assms(1) have i: "i < length (m_page_state m)" and w: "is_ps (m_page_state m ! i) Writable"
    and m': "m' = clear_dont_scan i (update_page_state i (\<lambda>ps. set_ps ps Dirty) m)"
    by (simp_all add: mark_dirty_Inr)
  from assms(2) have len: "length (m_chunk_dont_scan m) = chunks_covering (length (m_page_state m))"
    by (simp add: chunk_inv_def)
  with i have c: "chunk_of i < length (m_chunk_dont_scan m)"
    by (simp add: chunk_of_less)
  have "is_not (m_page_state m' ! j) Dirty"
    if "j < length (m_page_state m)" and "m_chunk_dont_scan m' ! chunk_of j" for j
  proof -
    from that(2) c have ne: "chunk_of j \<noteq> chunk_of i" and old: "m_chunk_dont_scan m ! chunk_of j"
      by (auto simp: m' prim_simps nth_list_update split: if_splits)
    then have "j \<noteq> i" by auto
    with assms(2) that(1) old show ?thesis
      by (simp add: m' prim_simps chunk_inv_def)
  qed
  then have "chunk_inv m'"
    using len by (simp add: chunk_inv_def m' prim_simps)
  moreover have "page_inv (m_page_state m' ! j)" if "j < length (m_page_state m)" for j
  proof (cases "j = i")
    case True
    from assms(2) i w have "is_ps (m_page_state m ! i) UpToDate"
      by (auto simp: flags_inv_nth page_inv_def)
    with True i show ?thesis
      by (simp add: m' prim_simps page_inv_def flag_simps)
  next
    case False
    with assms(2) that show ?thesis
      by (simp add: m' prim_simps flags_inv_nth)
  qed
  ultimately show ?thesis
    by (simp add: flags_inv_nth m' prim_simps)
qed

lemma mark_dirty_pages_inv:
  assumes "mark_dirty_pages pages m = Inr m'" and "chunk_inv m \<and> flags_inv m"
  shows "chunk_inv m' \<and> flags_inv m'"
  using assms
proof (induction pages arbitrary: m)
  case Nil
  then show ?case by simp
next
  case (Cons i pages)
  from Cons.prems(1) obtain m1 where
    m1: "mark_dirty i m = Inr m1" and rest: "mark_dirty_pages pages m1 = Inr m'"
    by (auto split: sum.splits)
  from mark_dirty_inv [OF m1 Cons.prems(2)] rest show ?case
    by (rule Cons.IH [rotated])
qed

lemma write_barrier_inv:
  assumes "write_barrier m addr sz = Inr m'" and "chunk_inv m \<and> flags_inv m"
  shows "chunk_inv m' \<and> flags_inv m'"
  using assms mark_dirty_pages_inv
  by (auto simp: write_barrier_def split: sum.splits)

lemma flushed_flags:
  "is_ps (flushed bits i ps) Dirty \<Longrightarrow> is_ps ps Dirty"
  "page_inv ps \<Longrightarrow> page_inv (flushed bits i ps)"
  by (auto simp: flushed_def page_inv_def flag_simps split: if_splits)

lemma flush_inv:
  assumes "chunk_inv m \<and> flags_inv m"
  shows "chunk_inv (flush m) \<and> flags_inv (flush m)"
proof -
  note f = flush_page_states [of m]
  let ?n = "length (m_page_state m)"
  from assms have len: "length (m_chunk_dont_scan m) = chunks_covering ?n"
    by (simp add: chunk_inv_def)
  have bits: "length (m_chunk_dont_scan (flush m)) = length (m_chunk_dont_scan m)"
    by (simp add: flush_def prim_simps fold_flush_page)
  have "is_not (m_page_state (flush m) ! j) Dirty"
    if j: "j < ?n" and set: "m_chunk_dont_scan (flush m) ! chunk_of j" for j
  proof -
    let ?m1 = "fold flush_page [0 ..< ?n] m"
    have m1: "m_chunk_dont_scan ?m1 = m_chunk_dont_scan m" "length (m_page_state ?m1) = ?n"
      "m_page_state (flush m) = m_page_state ?m1"
      using fold_flush_page [of "[0 ..< ?n]" m] by (simp_all add: flush_def prim_simps)
    from j len have c: "chunk_of j < length (m_chunk_dont_scan m)"
      by (simp add: chunk_of_less)
    with set have "m_chunk_dont_scan m ! chunk_of j \<or>
        list_all (\<lambda>i. is_not (m_page_state ?m1 ! i) (Dirty OR Writable))
          (chunk_pages ?n (chunk_of j))"
      by (simp add: flush_def set_dont_scan_def m1)
    then show ?thesis
    proof
      assume "m_chunk_dont_scan m ! chunk_of j"
      with assms j have "is_not (m_page_state m ! j) Dirty"
        by (simp add: chunk_inv_def)
      with f j flushed_flags(1) show ?thesis
        by (auto simp: is_not_iff)
    next
      assume "list_all (\<lambda>i. is_not (m_page_state ?m1 ! i) (Dirty OR Writable))
          (chunk_pages ?n (chunk_of j))"
      with in_chunk_pages [OF j] have "is_not (m_page_state ?m1 ! j) (Dirty OR Writable)"
        by (simp add: list_all_iff)
      then show ?thesis
        by (simp add: m1 flag_simps)
    qed
  qed
  then have "chunk_inv (flush m)"
    using f len bits by (simp add: chunk_inv_def)
  moreover have "flags_inv (flush m)"
    using assms f flushed_flags(2) by (simp add: flags_inv_nth)
  ultimately show ?thesis ..
qed

lemma mark_pages_for_IV_check_inv:
  assumes "chunk_inv m \<and> flags_inv m"
  shows "chunk_inv (mark_pages_for_IV_check m) \<and> flags_inv (mark_pages_for_IV_check m)"
  using assms
  by (auto simp: chunk_inv_def flags_inv_def page_inv_def mark_pages_for_IV_check_def
      mark_for_IV_check_flags is_not_iff)

lemma reclaim_untouched_inv:
  assumes "reclaim_untouched m progress_ptr savings = Inr (m', p', s')"
    and "chunk_inv m \<and> flags_inv m"
  shows "chunk_inv m' \<and> flags_inv m'"
proof -
  let ?pages = "[unat progress_ptr ..< length (m_page_state m)]"
  let ?n = "length (m_page_state m)"
  have "distinct ?pages" "\<forall>i\<in>set ?pages. i < length (m_page_state m)"
    by simp_all
  from reclaim_pages_result [OF this, of savings] obtain m1 where
    m1: "reclaim_pages ?pages m savings =
             Inr (m1, savings + of_nat (length (filter (evicts m) ?pages)) * page_size m)"
        "length (m_page_state m1) = ?n"
        "m_chunk_dont_scan m1 = m_chunk_dont_scan m"
        "\<forall>j. m_page_state m1 ! j =
                  (if j \<in> set ?pages \<and> evicts m j then Clean else m_page_state m ! j) \<and>
             memory m1 j = (if j \<in> set ?pages \<and> evicts m j then [] else memory m j)"
    by blast
  with assms(1) have m': "m' = set_dont_scan (\<lambda>c. unat progress_ptr \<le> push_bit page_to_chunk_shift c)
                 (\<lambda>ps. ps = Clean) m1"
    by (simp add: reclaim_untouched_def)
  from assms(2) have len: "length (m_chunk_dont_scan m) = chunks_covering ?n"
    by (simp add: chunk_inv_def)
  have st: "m_page_state m' ! j = Clean \<or> m_page_state m' ! j = m_page_state m ! j" for j
    using m1(4) by (simp add: m' prim_simps)
  have "is_not (m_page_state m' ! j) Dirty"
    if j: "j < ?n" and set: "m_chunk_dont_scan m' ! chunk_of j" for j
  proof -
    from j len have c: "chunk_of j < length (m_chunk_dont_scan m)"
      by (simp add: chunk_of_less)
    with set have "m_chunk_dont_scan m ! chunk_of j \<or>
        list_all (\<lambda>i. m_page_state m1 ! i = Clean) (chunk_pages ?n (chunk_of j))"
      by (auto simp: m' set_dont_scan_def m1(2,3))
    then show ?thesis
    proof
      assume "m_chunk_dont_scan m ! chunk_of j"
      with assms(2) j have "is_not (m_page_state m ! j) Dirty"
        by (simp add: chunk_inv_def)
      with st [of j] show ?thesis
        by (auto simp: is_not_iff is_ps_Clean)
    next
      assume "list_all (\<lambda>i. m_page_state m1 ! i = Clean) (chunk_pages ?n (chunk_of j))"
      with in_chunk_pages [OF j] have "m_page_state m1 ! j = Clean"
        by (simp add: list_all_iff)
      then show ?thesis
        by (simp add: m' prim_simps is_not_iff is_ps_Clean)
    qed
  qed
  then have "chunk_inv m'"
    using len m1(2,3) by (simp add: chunk_inv_def m' prim_simps)
  moreover have "page_inv (m_page_state m' ! j)" if "j < ?n" for j
    using st [of j] assms(2) that by (auto simp: page_inv_Clean flags_inv_nth)
  ultimately show ?thesis
    using m1(2) by (simp add: flags_inv_nth m' prim_simps)
qed

lemma extend_to_inv:
  assumes "chunk_inv m \<and> flags_inv m"
  shows "chunk_inv (extend_to m offset new_size) \<and> flags_inv (extend_to m offset new_size)"
proof -
  let ?n = "length (m_page_state m)"
  let ?k = "pages_covering m new_size"
  let ?m' = "extend_to m offset new_size"
  from assms have len: "length (m_chunk_dont_scan m) = chunks_covering ?n"
    by (simp add: chunk_inv_def)
  have n': "length (m_page_state ?m') = max ?n ?k"
    by (simp add: extend_to_def Let_def)
  have "chunks_covering ?n \<le> chunks_covering (max ?n ?k)"
    by (rule chunks_covering_mono) simp
  then have c': "length (m_chunk_dont_scan ?m') = chunks_covering (max ?n ?k)"
    using len by (simp add: extend_to_def Let_def)
  have old: "m_page_state ?m' ! j = m_page_state m ! j"
    "m_chunk_dont_scan ?m' ! chunk_of j = m_chunk_dont_scan m ! chunk_of j" if "j < ?n" for j
    using that len chunk_of_less [OF that]
    by (simp_all add: extend_to_def Let_def nth_append)
  have new: "m_page_state ?m' ! j = Clean" if "\<not> j < ?n" and "j < max ?n ?k" for j
    using that by (simp add: extend_to_def Let_def nth_append)
  have "is_not (m_page_state ?m' ! j) Dirty"
    if "j < max ?n ?k" and "m_chunk_dont_scan ?m' ! chunk_of j" for j
    using that assms old [of j] new [of j]
    by (cases "j < ?n") (auto simp: chunk_inv_def is_not_iff is_ps_Clean)
  then have "chunk_inv ?m'"
    using n' c' by (simp add: chunk_inv_def)
  moreover have "page_inv (m_page_state ?m' ! j)" if "j < max ?n ?k" for j
    using that assms old(1) [of j] new [of j]
    by (cases "j < ?n") (auto simp: flags_inv_nth page_inv_Clean)
  ultimately show ?thesis
    using n' by (simp add: flags_inv_nth)
qed

end
